theory Spec2Isabelle
  imports Main "HOL-Library.Char_ord" "HOL-Library.List_Lexorder"
begin

section \<open>The offline synchronisation service\<close>

text \<open>
  A shallow embedding of the class \<open>OfflineSyncService\<close> (\<open>services/offlineSync\<close>):
  the pending-operation queue held in memory (\<open>this.syncQueue\<close>), its durable copy in
  the IndexedDB object store \<open>syncQueue\<close>, and the replay loop \<open>syncWhenOnline\<close>.
  \<open>storeOffline\<close> and \<open>getOffline\<close>, the cache of entities in the object stores
  \<open>transactions\<close>, \<open>inventory\<close>, \<open>customers\<close> and \<open>products\<close>, are left out: they are
  taken not to be called on the store of the queue.
\<close>

subsection \<open>Data\<close>

text \<open>
  The interface \<open>PendingSync\<close>. The field \<open>id\<close> is written \<open>id'\<close> (HOL has the
  identity function \<open>id\<close>); \<open>data: any\<close> is a type parameter; the two numbers are
  non-negative integers in every run (a clock reading and a counter starting at 0).
\<close>

datatype sync_type = Transaction | Inventory | Customer | Product

datatype sync_action = Create | Update | Delete

record 'd PendingSync =
  id' :: string
  type :: sync_type
  action :: sync_action
  data :: 'd
  timestamp :: nat
  retries :: nat

text \<open>
  JavaScript objects are shared by reference: the array returned by \<open>getSyncQueue\<close> is a
  new array holding the very objects of \<open>this.syncQueue\<close>, so \<open>item.retries++\<close> inside
  the replay loop is seen through \<open>this.syncQueue\<close>. Objects therefore live in a heap
  (a list, a reference being an index into it, \<open>new\<close> appending to it), and the queue is a
  list of references. Records of the object store are structured clones: plain values.

  \<^item> \<open>db\<close>: \<open>this.db \<noteq> null\<close>;
  \<^item> \<open>syncQueue\<close>: \<open>this.syncQueue\<close>;
  \<^item> \<open>heap\<close>: the \<open>PendingSync\<close> objects allocated so far;
  \<^item> \<open>store\<close>: the records of the object store \<open>syncQueue\<close> (key path \<open>id\<close>) of the
    database \<open>pos-offline-db\<close>. IndexedDB keeps the records of an object store in
    ascending order of their keys, keys are unique, and string keys are compared
    lexicographically by code unit: the list is kept sorted by \<open>id'\<close>.
\<close>

type_synonym ref = nat

record 'd world =
  db :: bool
  syncQueue :: "ref list"
  heap :: "'d PendingSync list"
  store :: "'d PendingSync list"

text \<open>
  What the browser decides in one call: \<open>navigator.onLine\<close>, whether the requests to
  IndexedDB succeed, and the readings of \<open>Date.now()\<close> (taken twice by
  \<open>addToSyncQueue\<close>) and of \<open>Math.random().toString(36).substr(2, 9)\<close>.
\<close>

record env =
  onLine :: bool
  open_ok :: bool
  getAll_ok :: bool
  add_ok :: bool
  delete_ok :: "string \<Rightarrow> bool"
  dateNow1 :: nat
  dateNow2 :: nat
  mathRandom :: string

datatype error = OpenError | NotInitialized | ConstraintError | RequestError

text \<open>What the promise returned by the caller's \<open>syncFunction\<close> does.\<close>

datatype submit_result = Resolved bool | Rejected

subsection \<open>The object store\<close>

text \<open>
  \<open>store.add\<close> fails with a \<open>ConstraintError\<close> when a record with the key exists and
  otherwise inserts at the key's place; \<open>store.delete\<close> of an absent key succeeds;
  \<open>store.getAll\<close> returns the records in key order. Each request may also fail in the
  backend (quota, I/O), as the environment decides.
\<close>

definition idb_add :: "bool \<Rightarrow> 'd PendingSync \<Rightarrow> 'd PendingSync list \<Rightarrow> error + 'd PendingSync list" where
  "idb_add ok item st =
     (if \<not> ok then Inl RequestError
      else if id' item \<in> set (map id' st) then Inl ConstraintError
      else Inr (insort_key id' item st))"

definition idb_delete :: "bool \<Rightarrow> string \<Rightarrow> 'd PendingSync list \<Rightarrow> error + 'd PendingSync list" where
  "idb_delete ok k st =
     (if \<not> ok then Inl RequestError else Inr (filter (\<lambda>x. id' x \<noteq> k) st))"

definition idb_getAll :: "bool \<Rightarrow> 'd PendingSync list \<Rightarrow> 'd PendingSync list option" where
  "idb_getAll ok st = (if ok then Some st else None)"

subsection \<open>Identifiers\<close>

text \<open>The template literal \<open>`${Date.now()}-${Math.random().toString(36).substr(2, 9)}`\<close>.\<close>

definition digit_char :: "nat \<Rightarrow> char" where
  "digit_char d = ''0123456789'' ! d"

fun show_nat :: "nat \<Rightarrow> string" where
  "show_nat n = (if n < 10 then [digit_char n] else show_nat (n div 10) @ [digit_char (n mod 10)])"

declare show_nat.simps [simp del]

definition mk_id :: "nat \<Rightarrow> string \<Rightarrow> string" where
  "mk_id now rnd = show_nat now @ ''-'' @ rnd"

subsection \<open>The service\<close>

text \<open>A page load: a new \<open>OfflineSyncService\<close>, no objects, the database as it was left.\<close>

definition reload :: "'d world \<Rightarrow> 'd world" where
  "reload w = \<lparr>db = False, syncQueue = [], heap = [], store = store w\<rparr>"

text \<open>
  \<open>loadSyncQueue\<close>: on success of \<open>getAll\<close> the queue becomes the array of the stored
  records, new objects all; there is no \<open>onerror\<close> handler, so a failed request leaves
  the queue as it is.
\<close>

definition loadSyncQueue :: "env \<Rightarrow> 'd world \<Rightarrow> 'd world" where
  "loadSyncQueue e w =
     (if \<not> db w then w
      else case idb_getAll (getAll_ok e) (store w) of
             None \<Rightarrow> w
           | Some rs \<Rightarrow> w\<lparr>syncQueue := [length (heap w) ..< length (heap w) + length rs],
                          heap := heap w @ rs\<rparr>)"

text \<open>\<open>init\<close>: opens the database, keeps the handle and loads the queue.\<close>

definition init :: "env \<Rightarrow> 'd world \<Rightarrow> 'd world \<times> (error + unit)" where
  "init e w =
     (if open_ok e then (loadSyncQueue e (w\<lparr>db := True\<rparr>), Inr ()) else (w, Inl OpenError))"

text \<open>
  The object literal of \<open>addToSyncQueue\<close>: a new operation, never retried.
\<close>

definition new_item :: "env \<Rightarrow> sync_type \<Rightarrow> sync_action \<Rightarrow> 'd \<Rightarrow> 'd PendingSync" where
  "new_item e ty ac d = \<lparr>id' = mk_id (dateNow1 e) (mathRandom e), type = ty, action = ac,
     data = d, timestamp = dateNow2 e, retries = 0\<rparr>"

text \<open>
  \<open>addToSyncQueue\<close>. A rejected \<open>init\<close> rejects the call. The object \<open>syncItem\<close>
  is entered into the heap where it becomes reachable, at \<open>this.syncQueue.push\<close>.
\<close>

definition addToSyncQueue ::
  "env \<Rightarrow> sync_type \<Rightarrow> sync_action \<Rightarrow> 'd \<Rightarrow> 'd world \<Rightarrow> 'd world \<times> (error + string)" where
  "addToSyncQueue e ty ac d w =
     (case (if \<not> db w then init e w else (w, Inr ())) of
        (w1, Inl err) \<Rightarrow> (w1, Inl err)
      | (w1, Inr u) \<Rightarrow>
          (let syncItem = new_item e ty ac d
           in if \<not> db w1 then (w1, Inl NotInitialized)
              else (case idb_add (add_ok e) syncItem (store w1) of
                      Inl err \<Rightarrow> (w1, Inl err)
                    | Inr st \<Rightarrow>
                        (w1\<lparr>syncQueue := syncQueue w1 @ [length (heap w1)],
                            heap := heap w1 @ [syncItem], store := st\<rparr>,
                         Inr (id' syncItem)))))"

text \<open>\<open>getSyncQueue\<close>: a copy of the array, holding the same objects.\<close>

definition getSyncQueue :: "'d world \<Rightarrow> ref list" where
  "getSyncQueue w = syncQueue w"

text \<open>The operations a caller of \<open>getSyncQueue\<close> reads, in the array's order.\<close>

definition listed :: "'d world \<Rightarrow> 'd PendingSync list" where
  "listed w = map (\<lambda>r. heap w ! r) (getSyncQueue w)"

text \<open>\<open>removeFromSyncQueue\<close>.\<close>

definition removeFromSyncQueue :: "env \<Rightarrow> string \<Rightarrow> 'd world \<Rightarrow> 'd world \<times> (error + unit)" where
  "removeFromSyncQueue e k w =
     (if \<not> db w then (w, Inr ())
      else case idb_delete (delete_ok e k) k (store w) of
             Inl err \<Rightarrow> (w, Inl err)
           | Inr st \<Rightarrow>
               (w\<lparr>syncQueue := filter (\<lambda>r. id' (heap w ! r) \<noteq> k) (syncQueue w), store := st\<rparr>,
                Inr ()))"

text \<open>\<open>item.retries++\<close> on the object behind a reference.\<close>

definition incr_retries :: "ref \<Rightarrow> 'd world \<Rightarrow> 'd world" where
  "incr_retries r w =
     w\<lparr>heap := (heap w)[r := (heap w ! r)\<lparr>retries := retries (heap w ! r) + 1\<rparr>]\<rparr>"

text \<open>
  The body of the \<open>for\<close> loop of \<open>syncWhenOnline\<close> for one item of the snapshot. The
  \<open>catch\<close> block is entered when \<open>syncFunction\<close> rejects and when
  \<open>removeFromSyncQueue\<close> does. The submit function is taken to leave the service alone.
\<close>

definition catch_block :: "ref \<Rightarrow> 'd world \<Rightarrow> 'd world" where
  "catch_block r w = incr_retries r w"

definition sync_item ::
  "env \<Rightarrow> ('d PendingSync \<Rightarrow> submit_result) \<Rightarrow> ref \<Rightarrow> 'd world \<Rightarrow> 'd world" where
  "sync_item e syncFunction r w =
     (case syncFunction (heap w ! r) of
        Rejected \<Rightarrow> catch_block r w
      | Resolved success \<Rightarrow>
          if success then
            (case removeFromSyncQueue e (id' (heap w ! r)) w of
               (w', Inl err) \<Rightarrow> catch_block r w'
             | (w', Inr u) \<Rightarrow> w')
          else
            (let w1 = incr_retries r w
             in if retries (heap w1 ! r) > 5 then
                  (case removeFromSyncQueue e (id' (heap w1 ! r)) w1 of
                     (w', Inl err) \<Rightarrow> catch_block r w'
                   | (w', Inr u) \<Rightarrow> w')
                else w1))"

text \<open>
  The loop over the snapshot; beside the world it returns the arguments of the calls of
  \<open>syncFunction\<close>, in the order of the calls.
\<close>

fun sync_loop ::
  "env \<Rightarrow> ('d PendingSync \<Rightarrow> submit_result) \<Rightarrow> ref list \<Rightarrow> 'd world
     \<Rightarrow> 'd world \<times> 'd PendingSync list" where
  "sync_loop e syncFunction [] w = (w, [])"
| "sync_loop e syncFunction (r # rs) w =
     (case sync_loop e syncFunction rs (sync_item e syncFunction r w) of
        (w', calls) \<Rightarrow> (w', (heap w ! r) # calls))"

text \<open>
  \<open>syncWhenOnline\<close>. Offline it only registers a listener on \<open>window\<close>, which is not part
  of the service, and returns.
\<close>

definition syncWhenOnline ::
  "env \<Rightarrow> ('d PendingSync \<Rightarrow> submit_result) \<Rightarrow> 'd world \<Rightarrow> 'd world \<times> 'd PendingSync list" where
  "syncWhenOnline e syncFunction w =
     (if \<not> onLine e then (w, [])
      else (let queue = getSyncQueue w
            in if length queue = 0 then (w, []) else sync_loop e syncFunction queue w))"

subsection \<open>Sequences of calls\<close>

text \<open>
  Replay passes one after the other, each with the browser's state and the caller's
  \<open>syncFunction\<close> of that pass.
\<close>

definition replays ::
  "(env \<times> ('d PendingSync \<Rightarrow> submit_result)) list \<Rightarrow> 'd world \<Rightarrow> 'd world" where
  "replays ps w = foldl (\<lambda>w (e, f). fst (syncWhenOnline e f w)) w ps"

text \<open>
  Calls of \<open>addToSyncQueue\<close>, \<open>removeFromSyncQueue\<close> and \<open>syncWhenOnline\<close> in any
  order. \<open>run\<close> performs them on the service and, beside it, keeps the queue of ids the
  specification describes: \<open>enqueue\<close> appends the id it returns, \<open>remove\<close> deletes the
  id it is given, and \<open>replay\<close> keeps, in their places, the ids that are still listed
  after the pass. \<open>enqueued\<close> lists the ids the calls of \<open>addToSyncQueue\<close> return, in
  the order of the calls; \<open>targets\<close> lists the ids the calls of \<open>removeFromSyncQueue\<close>
  are given; \<open>no_replay\<close> holds of the sequences without a call of \<open>syncWhenOnline\<close>.
\<close>

datatype 'd call =
    Enqueue env sync_type sync_action 'd
  | Remove env string
  | Replay env "'d PendingSync \<Rightarrow> submit_result"

definition fifo_enqueue :: "string \<Rightarrow> string list \<Rightarrow> string list" where
  "fifo_enqueue k ks = ks @ [k]"

definition fifo_remove :: "string \<Rightarrow> string list \<Rightarrow> string list" where
  "fifo_remove k ks = filter (\<lambda>i. i \<noteq> k) ks"

definition fifo_retain :: "string set \<Rightarrow> string list \<Rightarrow> string list" where
  "fifo_retain S ks = filter (\<lambda>i. i \<in> S) ks"

fun run :: "'d call list \<Rightarrow> 'd world \<Rightarrow> string list \<Rightarrow> 'd world \<times> string list" where
  "run [] w ks = (w, ks)"
| "run (Enqueue e ty ac d # cs) w ks =
     (case addToSyncQueue e ty ac d w of
        (w', Inr k) \<Rightarrow> run cs w' (fifo_enqueue k ks)
      | (w', Inl err) \<Rightarrow> run cs w' ks)"
| "run (Remove e k # cs) w ks =
     (case removeFromSyncQueue e k w of
        (w', Inr u) \<Rightarrow> run cs w' (fifo_remove k ks)
      | (w', Inl err) \<Rightarrow> run cs w' ks)"
| "run (Replay e f # cs) w ks =
     (case syncWhenOnline e f w of
        (w', calls) \<Rightarrow> run cs w' (fifo_retain (id' ` set (listed w')) ks))"

fun enqueued :: "'d call list \<Rightarrow> 'd world \<Rightarrow> string list" where
  "enqueued [] w = []"
| "enqueued (Enqueue e ty ac d # cs) w =
     (case addToSyncQueue e ty ac d w of
        (w', Inr k) \<Rightarrow> k # enqueued cs w'
      | (w', Inl err) \<Rightarrow> enqueued cs w')"
| "enqueued (Remove e k # cs) w = enqueued cs (fst (removeFromSyncQueue e k w))"
| "enqueued (Replay e f # cs) w = enqueued cs (fst (syncWhenOnline e f w))"

fun targets :: "'d call list \<Rightarrow> string list" where
  "targets [] = []"
| "targets (Enqueue e ty ac d # cs) = targets cs"
| "targets (Remove e k # cs) = k # targets cs"
| "targets (Replay e f # cs) = targets cs"

fun no_replay :: "'d call list \<Rightarrow> bool" where
  "no_replay [] = True"
| "no_replay (Enqueue e ty ac d # cs) = no_replay cs"
| "no_replay (Remove e k # cs) = no_replay cs"
| "no_replay (Replay e f # cs) = False"

subsection \<open>Replay passes, described\<close>

text \<open>
  For the statements about a replay pass: whether the pass removes an operation after
  the call of \<open>syncFunction\<close> on it, what the pass leaves of it in memory, and the ids
  a pass over a snapshot removes, all when the delete requests succeed.
\<close>

definition dropped :: "('d PendingSync \<Rightarrow> submit_result) \<Rightarrow> 'd PendingSync \<Rightarrow> bool" where
  "dropped f x \<longleftrightarrow> f x = Resolved True \<or> (f x = Resolved False \<and> 5 \<le> retries x)"

definition bumped :: "('d PendingSync \<Rightarrow> submit_result) \<Rightarrow> 'd PendingSync \<Rightarrow> 'd PendingSync" where
  "bumped f x = (if f x = Resolved True then x else x\<lparr>retries := retries x + 1\<rparr>)"

definition drop_ids ::
  "('d PendingSync \<Rightarrow> submit_result) \<Rightarrow> 'd world \<Rightarrow> ref list \<Rightarrow> string set" where
  "drop_ids f w rs = (\<lambda>r. id' (heap w ! r)) ` {r \<in> set rs. dropped f (heap w ! r)}"

text \<open>
  The queue of a running service holds each object once, every reference points into the
  heap, and no two operations of the queue share an id.
\<close>

definition valid_refs :: "'d world \<Rightarrow> bool" where
  "valid_refs w \<longleftrightarrow> (\<forall>r\<in>set (syncQueue w). r < length (heap w))"

definition wf :: "'d world \<Rightarrow> bool" where
  "wf w \<longleftrightarrow> distinct (syncQueue w) \<and> (\<forall>r\<in>set (syncQueue w). r < length (heap w))
            \<and> distinct (map id' (listed w))"

text \<open>
  Moreover, in a run that starts on an empty database, every queued operation has its
  record in the object store, the records are in key order with no key twice, and each
  record has the \<open>retries = 0\<close> it was written with.
\<close>

definition coherent :: "'d world \<Rightarrow> bool" where
  "coherent w \<longleftrightarrow> wf w \<and> id' ` set (listed w) \<subseteq> id' ` set (store w)
     \<and> distinct (map id' (store w)) \<and> sorted (map id' (store w))
     \<and> (\<forall>x\<in>set (store w). retries x = 0)"

subsection \<open>A run of the service\<close>

text \<open>
  A browser in which every request succeeds, and three operations enqueued at three
  instants after the service has been initialised on an empty database.
\<close>

definition world0 :: "'d world" where
  "world0 = \<lparr>db = False, syncQueue = [], heap = [], store = []\<rparr>"

text \<open>
  The states of a run: page loads, and calls of the service with any arguments, any
  \<open>syncFunction\<close> and any behaviour of the browser.
\<close>

inductive reachable :: "'d world \<Rightarrow> bool" where
  start: "reachable world0"
| page_load: "reachable w \<Longrightarrow> reachable (reload w)"
| initialised: "reachable w \<Longrightarrow> reachable (fst (init e w))"
| enqueue: "reachable w \<Longrightarrow> reachable (fst (addToSyncQueue e ty ac d w))"
| remove: "reachable w \<Longrightarrow> reachable (fst (removeFromSyncQueue e k w))"
| replay: "reachable w \<Longrightarrow> reachable (fst (syncWhenOnline e f w))"

definition env_at :: "nat \<Rightarrow> string \<Rightarrow> env" where
  "env_at now rnd = \<lparr>onLine = True, open_ok = True, getAll_ok = True, add_ok = True,
     delete_ok = (\<lambda>k. True), dateNow1 = now, dateNow2 = now, mathRandom = rnd\<rparr>"

definition item_A :: "nat PendingSync" where
  "item_A = \<lparr>id' = ''1700000000000-k3x9q2m1z'', type = Transaction, action = Create,
     data = 11, timestamp = 1700000000000, retries = 0\<rparr>"

definition item_B :: "nat PendingSync" where
  "item_B = \<lparr>id' = ''1700000000250-a8d0f5c7b'', type = Inventory, action = Update,
     data = 22, timestamp = 1700000000250, retries = 0\<rparr>"

definition item_C :: "nat PendingSync" where
  "item_C = \<lparr>id' = ''1700000000500-p0w4e6r2t'', type = Customer, action = Delete,
     data = 33, timestamp = 1700000000500, retries = 0\<rparr>"

definition world_init :: "nat world" where
  "world_init = fst (init (env_at 1699999999000 []) world0)"

definition world_A :: "nat world" where
  "world_A = fst (addToSyncQueue (env_at 1700000000000 ''k3x9q2m1z'') Transaction Create 11 world_init)"

definition world_AB :: "nat world" where
  "world_AB = fst (addToSyncQueue (env_at 1700000000250 ''a8d0f5c7b'') Inventory Update 22 world_A)"

definition world_ABC :: "nat world" where
  "world_ABC = fst (addToSyncQueue (env_at 1700000000500 ''p0w4e6r2t'') Customer Delete 33 world_AB)"

text \<open>The same three calls with a remove of an id that was never enqueued in between.\<close>

definition calls_example :: "nat call list" where
  "calls_example =
     [Enqueue (env_at 1700000000000 ''k3x9q2m1z'') Transaction Create 11,
      Enqueue (env_at 1700000000250 ''a8d0f5c7b'') Inventory Update 22,
      Remove (env_at 1700000000300 []) ''1600000000000-m5n6b7v8c'',
      Enqueue (env_at 1700000000500 ''p0w4e6r2t'') Customer Delete 33]"

text \<open>
  Later passes, online and with working requests, in which \<open>syncFunction\<close> does the same
  for every operation, or resolves \<open>false\<close> for one id only.
\<close>

definition env_later :: env where
  "env_later = env_at 1700000060000 []"

definition submit_always :: "submit_result \<Rightarrow> 'd PendingSync \<Rightarrow> submit_result" where
  "submit_always res x = res"

definition submit_failing_for :: "string \<Rightarrow> 'd PendingSync \<Rightarrow> submit_result" where
  "submit_failing_for k x = Resolved (id' x \<noteq> k)"

text \<open>
  The three calls with a pass in between in which \<open>syncFunction\<close> resolves \<open>false\<close> for
  the second operation and \<open>true\<close> for the first.
\<close>

definition calls_replay_example :: "nat call list" where
  "calls_replay_example =
     [Enqueue (env_at 1700000000000 ''k3x9q2m1z'') Transaction Create 11,
      Enqueue (env_at 1700000000250 ''a8d0f5c7b'') Inventory Update 22,
      Replay (env_at 1700000000300 []) (submit_failing_for ''1700000000250-a8d0f5c7b''),
      Enqueue (env_at 1700000000500 ''p0w4e6r2t'') Customer Delete 33]"

definition passes :: "nat \<Rightarrow> submit_result \<Rightarrow> (env \<times> (nat PendingSync \<Rightarrow> submit_result)) list" where
  "passes n res = replicate n (env_later, submit_always res)"

text \<open>
  The second operation enqueued in the millisecond of the first, with a random part that
  sorts before the first one's.
\<close>

definition item_B2 :: "nat PendingSync" where
  "item_B2 = \<lparr>id' = ''1700000000000-a8d0f5c7b'', type = Inventory, action = Update,
     data = 22, timestamp = 1700000000000, retries = 0\<rparr>"

definition world_AB2 :: "nat world" where
  "world_AB2 = fst (addToSyncQueue (env_at 1700000000000 ''a8d0f5c7b'') Inventory Update 22 world_A)"

definition world_AB2C :: "nat world" where
  "world_AB2C = fst (addToSyncQueue (env_at 1700000000500 ''p0w4e6r2t'') Customer Delete 33 world_AB2)"

text \<open>A browser whose add request fails.\<close>

definition env_add_fails :: env where
  "env_add_fails = \<lparr>onLine = True, open_ok = True, getAll_ok = True, add_ok = False,
     delete_ok = (\<lambda>k. True), dateNow1 = 1700000090000, dateNow2 = 1700000090000,
     mathRandom = ''z9y8x7w6v''\<rparr>"

section \<open>Lemmas\<close>

subsection \<open>The replay loop\<close>

lemma id_nth_update:
  "id' y = id' (xs ! r) \<Longrightarrow> id' (xs[r := y] ! i) = id' (xs ! i)"
  by (cases "r < length xs") (simp_all add: nth_list_update not_less list_update_beyond)

lemma incr_retries_simps [simp]:
  "db (incr_retries r w) = db w"
  "syncQueue (incr_retries r w) = syncQueue w"
  "store (incr_retries r w) = store w"
  "length (heap (incr_retries r w)) = length (heap w)"
  "id' (heap (incr_retries r w) ! i) = id' (heap w ! i)"
  "i \<noteq> r \<Longrightarrow> heap (incr_retries r w) ! i = heap w ! i"
  by (simp_all add: incr_retries_def id_nth_update)

lemmas sync_item_unfold =
  sync_item_def catch_block_def removeFromSyncQueue_def idb_delete_def Let_def

lemma sync_item_db [simp]: "db (sync_item e f r w) = db w"
  by (simp add: sync_item_unfold split: submit_result.splits)

lemma sync_item_heap_length [simp]: "length (heap (sync_item e f r w)) = length (heap w)"
  by (simp add: sync_item_unfold split: submit_result.splits)

lemma sync_item_heap_other: "i \<noteq> r \<Longrightarrow> heap (sync_item e f r w) ! i = heap w ! i"
  by (simp add: sync_item_unfold split: submit_result.splits)

lemma sync_item_id [simp]: "id' (heap (sync_item e f r w) ! i) = id' (heap w ! i)"
  by (simp add: sync_item_unfold split: submit_result.splits)

lemma sync_item_healthy_heap:
  assumes "db w" "\<forall>k. delete_ok e k" "r < length (heap w)"
  shows "heap (sync_item e f r w) ! r = bumped f (heap w ! r)"
  using assms
  by (simp add: sync_item_unfold bumped_def incr_retries_def split: submit_result.splits)

lemma sync_item_healthy_queue:
  assumes "db w" "\<forall>k. delete_ok e k" "r < length (heap w)"
  shows "syncQueue (sync_item e f r w) =
          (if dropped f (heap w ! r)
           then filter (\<lambda>r'. id' (heap w ! r') \<noteq> id' (heap w ! r)) (syncQueue w) else syncQueue w)"
  using assms
  by (auto simp add: sync_item_unfold dropped_def incr_retries_def id_nth_update
      split: submit_result.splits)

lemma sync_item_healthy_store:
  assumes "db w" "\<forall>k. delete_ok e k" "r < length (heap w)"
  shows "store (sync_item e f r w) =
          (if dropped f (heap w ! r)
           then filter (\<lambda>x. id' x \<noteq> id' (heap w ! r)) (store w) else store w)"
  using assms
  by (auto simp add: sync_item_unfold dropped_def incr_retries_def id_nth_update
      split: submit_result.splits)

lemma sync_loop_Cons_fst [simp]:
  "fst (sync_loop e f (r # rs) w) = fst (sync_loop e f rs (sync_item e f r w))"
  by (simp add: case_prod_beta)

lemma sync_loop_Cons_snd [simp]:
  "snd (sync_loop e f (r # rs) w) = heap w ! r # snd (sync_loop e f rs (sync_item e f r w))"
  by (simp add: case_prod_beta)

declare sync_loop.simps(2) [simp del]

lemma sync_loop_db [simp]: "db (fst (sync_loop e f rs w)) = db w"
  by (induction rs arbitrary: w) (simp_all)

lemma sync_loop_heap_length [simp]: "length (heap (fst (sync_loop e f rs w))) = length (heap w)"
  by (induction rs arbitrary: w) (simp_all)

lemma sync_loop_id [simp]: "id' (heap (fst (sync_loop e f rs w)) ! i) = id' (heap w ! i)"
  by (induction rs arbitrary: w) (simp_all)

lemma sync_loop_heap_other:
  "i \<notin> set rs \<Longrightarrow> heap (fst (sync_loop e f rs w)) ! i = heap w ! i"
  by (induction rs arbitrary: w) (simp_all add: sync_item_heap_other)

lemma sync_loop_calls:
  "distinct rs \<Longrightarrow> snd (sync_loop e f rs w) = map (\<lambda>r. heap w ! r) rs"
proof (induction rs arbitrary: w)
  case Nil
  then show ?case by simp
next
  case (Cons r rs)
  have "map (\<lambda>q. heap (sync_item e f r w) ! q) rs = map (\<lambda>q. heap w ! q) rs"
    using Cons.prems by (intro map_cong refl sync_item_heap_other) auto
  with Cons show ?case by (simp)
qed

lemma sync_loop_healthy_heap:
  assumes "db w" "\<forall>k. delete_ok e k" "distinct rs" "\<forall>r\<in>set rs. r < length (heap w)"
  shows "heap (fst (sync_loop e f rs w)) ! i =
          (if i \<in> set rs then bumped f (heap w ! i) else heap w ! i)"
  using assms
proof (induction rs arbitrary: w)
  case Nil
  then show ?case by simp
next
  case (Cons r rs)
  let ?w1 = "sync_item e f r w"
  have ih: "heap (fst (sync_loop e f rs ?w1)) ! i =
          (if i \<in> set rs then bumped f (heap ?w1 ! i) else heap ?w1 ! i)"
    using Cons.prems by (intro Cons.IH) simp_all
  show ?case
  proof (cases "i = r")
    case True
    then have "i \<notin> set rs" using Cons.prems by simp
    with ih True Cons.prems show ?thesis
      by (simp add: sync_item_healthy_heap)
  next
    case False
    with ih show ?thesis
      by (simp add: sync_item_heap_other)
  qed
qed

lemma drop_ids_Cons:
  "drop_ids f w (r # rs) =
     (if dropped f (heap w ! r) then {id' (heap w ! r)} else {}) \<union> drop_ids f w rs"
  by (auto simp add: drop_ids_def)

lemma drop_ids_sync_item:
  assumes "r \<notin> set rs"
  shows "drop_ids f (sync_item e f r w) rs = drop_ids f w rs"
proof -
  have "\<And>q. q \<in> set rs \<Longrightarrow> heap (sync_item e f r w) ! q = heap w ! q"
    using assms by (intro sync_item_heap_other) auto
  then show ?thesis unfolding drop_ids_def by (auto intro!: image_cong)
qed

lemma sync_loop_healthy_queue:
  assumes "db w" "\<forall>k. delete_ok e k" "distinct rs" "\<forall>r\<in>set rs. r < length (heap w)"
  shows "syncQueue (fst (sync_loop e f rs w)) =
          filter (\<lambda>q. id' (heap w ! q) \<notin> drop_ids f w rs) (syncQueue w)"
  using assms
proof (induction rs arbitrary: w)
  case Nil
  then show ?case by (simp add: drop_ids_def)
next
  case (Cons r rs)
  let ?w1 = "sync_item e f r w"
  have "syncQueue (fst (sync_loop e f rs ?w1)) =
          filter (\<lambda>q. id' (heap ?w1 ! q) \<notin> drop_ids f ?w1 rs) (syncQueue ?w1)"
    using Cons.prems by (intro Cons.IH) simp_all
  moreover have "drop_ids f ?w1 rs = drop_ids f w rs"
    using Cons.prems by (intro drop_ids_sync_item) simp
  ultimately show ?case using Cons.prems
    by (auto simp add: sync_item_healthy_queue drop_ids_Cons intro!: filter_cong)
qed

lemma sync_loop_healthy_store:
  assumes "db w" "\<forall>k. delete_ok e k" "distinct rs" "\<forall>r\<in>set rs. r < length (heap w)"
  shows "store (fst (sync_loop e f rs w)) =
          filter (\<lambda>x. id' x \<notin> drop_ids f w rs) (store w)"
  using assms
proof (induction rs arbitrary: w)
  case Nil
  then show ?case by (simp add: drop_ids_def)
next
  case (Cons r rs)
  let ?w1 = "sync_item e f r w"
  have "store (fst (sync_loop e f rs ?w1)) =
          filter (\<lambda>x. id' x \<notin> drop_ids f ?w1 rs) (store ?w1)"
    using Cons.prems by (intro Cons.IH) simp_all
  moreover have "drop_ids f ?w1 rs = drop_ids f w rs"
    using Cons.prems by (intro drop_ids_sync_item) simp
  ultimately show ?case using Cons.prems
    by (auto simp add: sync_item_healthy_store drop_ids_Cons intro!: filter_cong)
qed

lemma syncWhenOnline_loop:
  "syncWhenOnline e f w = (if onLine e then sync_loop e f (syncQueue w) w else (w, []))"
  by (cases "syncQueue w") (simp_all add: syncWhenOnline_def getSyncQueue_def Let_def)

lemma listed_eq: "listed w = map (\<lambda>r. heap w ! r) (syncQueue w)"
  by (simp add: listed_def getSyncQueue_def)

subsection \<open>Passes under any requests\<close>

lemma replays_simps [simp]:
  "replays [] w = w"
  "replays (p # ps) w = replays ps (fst (syncWhenOnline (fst p) (snd p) w))"
  "replays (ps @ [p]) w = fst (syncWhenOnline (fst p) (snd p) (replays ps w))"
  by (simp_all add: replays_def case_prod_beta)

lemma sync_item_deletes:
  "\<exists>D. syncQueue (sync_item e f r w) = filter (\<lambda>q. id' (heap w ! q) \<notin> D) (syncQueue w)
      \<and> store (sync_item e f r w) = filter (\<lambda>x. id' x \<notin> D) (store w)"
proof -
  let ?k = "id' (heap w ! r)"
  have "(syncQueue (sync_item e f r w) = syncQueue w \<and> store (sync_item e f r w) = store w)
      \<or> (syncQueue (sync_item e f r w) = filter (\<lambda>q. id' (heap w ! q) \<noteq> ?k) (syncQueue w)
          \<and> store (sync_item e f r w) = filter (\<lambda>x. id' x \<noteq> ?k) (store w))"
    by (auto simp add: sync_item_unfold incr_retries_def id_nth_update split: submit_result.splits)
  then show ?thesis
  proof
    assume "syncQueue (sync_item e f r w) = syncQueue w \<and> store (sync_item e f r w) = store w"
    then show ?thesis by (intro exI [of _ "{}"]) simp
  next
    assume "syncQueue (sync_item e f r w) = filter (\<lambda>q. id' (heap w ! q) \<noteq> ?k) (syncQueue w)
          \<and> store (sync_item e f r w) = filter (\<lambda>x. id' x \<noteq> ?k) (store w)"
    then show ?thesis by (intro exI [of _ "{?k}"]) simp
  qed
qed

lemma sync_loop_deletes:
  "\<exists>D. syncQueue (fst (sync_loop e f rs w)) = filter (\<lambda>q. id' (heap w ! q) \<notin> D) (syncQueue w)
      \<and> store (fst (sync_loop e f rs w)) = filter (\<lambda>x. id' x \<notin> D) (store w)"
proof (induction rs arbitrary: w)
  case Nil
  show ?case by (intro exI [of _ "{}"]) simp
next
  case (Cons r rs)
  let ?w1 = "sync_item e f r w"
  obtain D1 where D1: "syncQueue ?w1 = filter (\<lambda>q. id' (heap w ! q) \<notin> D1) (syncQueue w)"
      "store ?w1 = filter (\<lambda>x. id' x \<notin> D1) (store w)"
    using sync_item_deletes [of e f r w] by blast
  obtain D2 where D2:
      "syncQueue (fst (sync_loop e f rs ?w1)) = filter (\<lambda>q. id' (heap ?w1 ! q) \<notin> D2) (syncQueue ?w1)"
      "store (fst (sync_loop e f rs ?w1)) = filter (\<lambda>x. id' x \<notin> D2) (store ?w1)"
    using Cons.IH [of ?w1] by blast
  show ?case
    by (intro exI [of _ "D1 \<union> D2"]) (auto simp add: D1 D2 intro!: filter_cong)
qed

lemma syncWhenOnline_deletes:
  "\<exists>D. syncQueue (fst (syncWhenOnline e f w)) = filter (\<lambda>q. id' (heap w ! q) \<notin> D) (syncQueue w)
      \<and> store (fst (syncWhenOnline e f w)) = filter (\<lambda>x. id' x \<notin> D) (store w)"
proof (cases "onLine e")
  case True
  then show ?thesis using sync_loop_deletes [of e f "syncQueue w" w]
    by (simp add: syncWhenOnline_loop)
next
  case False
  then show ?thesis by (intro exI [of _ "{}"]) (simp add: syncWhenOnline_loop)
qed

lemma syncWhenOnline_frame [simp]:
  "db (fst (syncWhenOnline e f w)) = db w"
  "length (heap (fst (syncWhenOnline e f w))) = length (heap w)"
  "id' (heap (fst (syncWhenOnline e f w)) ! i) = id' (heap w ! i)"
  by (simp_all add: syncWhenOnline_loop)

lemma syncWhenOnline_wf:
  assumes "wf w"
  shows "wf (fst (syncWhenOnline e f w))"
proof -
  let ?w' = "fst (syncWhenOnline e f w)"
  obtain D where D: "syncQueue ?w' = filter (\<lambda>q. id' (heap w ! q) \<notin> D) (syncQueue w)"
    using syncWhenOnline_deletes [of e f w] by blast
  have "map id' (listed ?w') = filter (\<lambda>k. k \<notin> D) (map id' (listed w))"
    by (simp add: listed_eq D filter_map comp_def)
  with assms show ?thesis
    by (simp add: wf_def D)
qed

lemma syncWhenOnline_gone:
  assumes "k \<notin> id' ` set (listed w)" and "k \<notin> id' ` set (store w)"
  shows "k \<notin> id' ` set (listed (fst (syncWhenOnline e f w)))
       \<and> k \<notin> id' ` set (store (fst (syncWhenOnline e f w)))"
proof -
  let ?w' = "fst (syncWhenOnline e f w)"
  obtain D where D: "syncQueue ?w' = filter (\<lambda>q. id' (heap w ! q) \<notin> D) (syncQueue w)"
     "store ?w' = filter (\<lambda>x. id' x \<notin> D) (store w)"
    using syncWhenOnline_deletes [of e f w] by blast
  have "map id' (listed ?w') = filter (\<lambda>k. k \<notin> D) (map id' (listed w))"
    by (simp add: listed_eq D filter_map comp_def)
  then have "id' ` set (listed ?w') \<subseteq> id' ` set (listed w)"
    by (metis filter_is_subset set_map)
  moreover have "id' ` set (store ?w') \<subseteq> id' ` set (store w)"
    by (auto simp add: D)
  ultimately show ?thesis using assms by blast
qed

lemma replays_deletes:
  "\<exists>D. store (replays ps w) = filter (\<lambda>x. id' x \<notin> D) (store w)"
proof (induction ps rule: rev_induct)
  case Nil
  show ?case by (intro exI [of _ "{}"]) simp
next
  case (snoc p ps)
  then obtain D1 where D1: "store (replays ps w) = filter (\<lambda>x. id' x \<notin> D1) (store w)"
    by blast
  obtain D2 where D2: "store (fst (syncWhenOnline (fst p) (snd p) (replays ps w)))
      = filter (\<lambda>x. id' x \<notin> D2) (store (replays ps w))"
    using syncWhenOnline_deletes [of "fst p" "snd p" "replays ps w"] by blast
  show ?case
    by (intro exI [of _ "D1 \<union> D2"]) (auto simp add: D1 D2 intro!: filter_cong)
qed

subsection \<open>Passes in which every call resolves false\<close>

lemma pass_all_false:
  assumes "onLine e" and "\<forall>k. delete_ok e k" and "\<forall>x. f x = Resolved False"
    and "db w" and "wf w" and "r \<in> set (syncQueue w)"
  shows "heap (fst (syncWhenOnline e f w)) ! r = (heap w ! r)\<lparr>retries := retries (heap w ! r) + 1\<rparr>"
    and "retries (heap w ! r) < 5 \<Longrightarrow> r \<in> set (syncQueue (fst (syncWhenOnline e f w)))"
    and "5 \<le> retries (heap w ! r) \<Longrightarrow>
           id' (heap w ! r) \<notin> id' ` set (listed (fst (syncWhenOnline e f w)))
         \<and> id' (heap w ! r) \<notin> id' ` set (store (fst (syncWhenOnline e f w)))"
proof -
  let ?rs = "syncQueue w"
  let ?w' = "fst (sync_loop e f ?rs w)"
  have d: "distinct ?rs" and v: "\<forall>r\<in>set ?rs. r < length (heap w)"
    and di: "distinct (map id' (listed w))"
    using assms(5) by (simp_all add: wf_def)
  have inj: "inj_on (\<lambda>q. id' (heap w ! q)) (set ?rs)"
    using di d by (simp add: listed_eq distinct_map comp_def)
  have w': "fst (syncWhenOnline e f w) = ?w'"
    using assms(1) by (simp add: syncWhenOnline_loop)
  have q: "syncQueue ?w' = filter (\<lambda>q. id' (heap w ! q) \<notin> drop_ids f w ?rs) ?rs"
    by (rule sync_loop_healthy_queue [OF assms(4) assms(2) d v])
  have s: "store ?w' = filter (\<lambda>x. id' x \<notin> drop_ids f w ?rs) (store w)"
    by (rule sync_loop_healthy_store [OF assms(4) assms(2) d v])
  have mem: "id' (heap w ! r) \<in> drop_ids f w ?rs \<longleftrightarrow> 5 \<le> retries (heap w ! r)"
  proof
    assume "id' (heap w ! r) \<in> drop_ids f w ?rs"
    then obtain q where "q \<in> set ?rs" "dropped f (heap w ! q)" "id' (heap w ! q) = id' (heap w ! r)"
      by (auto simp add: drop_ids_def)
    moreover from this assms(6) inj have "q = r" by (auto dest: inj_onD)
    ultimately show "5 \<le> retries (heap w ! r)" using assms(3) by (simp add: dropped_def)
  next
    assume "5 \<le> retries (heap w ! r)"
    then show "id' (heap w ! r) \<in> drop_ids f w ?rs"
      using assms(3,6) by (auto simp add: drop_ids_def dropped_def)
  qed
  show "heap (fst (syncWhenOnline e f w)) ! r = (heap w ! r)\<lparr>retries := retries (heap w ! r) + 1\<rparr>"
    using sync_loop_healthy_heap [OF assms(4) assms(2) d v, of f r] assms(3,6)
    by (simp add: w' bumped_def)
  show "r \<in> set (syncQueue (fst (syncWhenOnline e f w)))" if "retries (heap w ! r) < 5"
    using that mem assms(6) by (simp add: w' q)
  show "id' (heap w ! r) \<notin> id' ` set (listed (fst (syncWhenOnline e f w)))
         \<and> id' (heap w ! r) \<notin> id' ` set (store (fst (syncWhenOnline e f w)))"
    if "5 \<le> retries (heap w ! r)"
    using that mem by (auto simp add: w' q s listed_eq)
qed

subsection \<open>Initialisation and enqueueing\<close>

lemma addToSyncQueue_open:
  assumes "db w"
  shows "addToSyncQueue e ty ac d w =
     (if add_ok e \<and> id' (new_item e ty ac d) \<notin> id' ` set (store w)
      then (w\<lparr>syncQueue := syncQueue w @ [length (heap w)],
               heap := heap w @ [new_item e ty ac d],
               store := insort_key id' (new_item e ty ac d) (store w)\<rparr>,
            Inr (id' (new_item e ty ac d)))
      else (w, Inl (if add_ok e then ConstraintError else RequestError)))"
  using assms by (simp add: addToSyncQueue_def idb_add_def new_item_def Let_def)

lemma init_simps [simp]:
  "store (fst (init e w)) = store w"
  "db (fst (init e w)) = (open_ok e \<or> db w)"
  "snd (init e w) = (if open_ok e then Inr () else Inl OpenError)"
  by (simp_all add: init_def loadSyncQueue_def idb_getAll_def)

lemma addToSyncQueue_closed:
  assumes "\<not> db w"
  shows "addToSyncQueue e ty ac d w =
     (if open_ok e then addToSyncQueue e ty ac d (fst (init e w)) else (w, Inl OpenError))"
  using assms
  by (simp add: addToSyncQueue_def init_def loadSyncQueue_def idb_getAll_def Let_def)

lemma addToSyncQueue_cases:
  "addToSyncQueue e ty ac d w =
     (if \<not> db w \<and> \<not> open_ok e then (w, Inl OpenError)
      else if add_ok e \<and> id' (new_item e ty ac d) \<notin> id' ` set (store w)
      then ((if db w then w else fst (init e w))
              \<lparr>syncQueue := syncQueue (if db w then w else fst (init e w))
                             @ [length (heap (if db w then w else fst (init e w)))],
               heap := heap (if db w then w else fst (init e w)) @ [new_item e ty ac d],
               store := insort_key id' (new_item e ty ac d) (store w)\<rparr>,
            Inr (id' (new_item e ty ac d)))
      else (if db w then w else fst (init e w),
            Inl (if add_ok e then ConstraintError else RequestError)))"
proof (cases "db w")
  case True
  then show ?thesis by (simp add: addToSyncQueue_open)
next
  case False
  show ?thesis
  proof (cases "open_ok e")
    case True
    then have "db (fst (init e w))" by simp
    from addToSyncQueue_open [OF this, of e ty ac d] show ?thesis
      using False True by (simp add: addToSyncQueue_closed)
  next
    case f: False
    with False show ?thesis by (simp add: addToSyncQueue_closed)
  qed
qed

lemma init_closed [simp]: "\<not> open_ok e \<Longrightarrow> fst (init e w) = w"
  by (simp add: init_def)

lemma init_fresh:
  assumes "syncQueue w = []" and "store w = []"
  shows "syncQueue (fst (init e w)) = []" and "heap (fst (init e w)) = heap w"
  using assms by (simp_all add: init_def loadSyncQueue_def idb_getAll_def)

lemma new_item_simps [simp]:
  "id' (new_item e ty ac d) = mk_id (dateNow1 e) (mathRandom e)"
  "retries (new_item e ty ac d) = 0"
  by (simp_all add: new_item_def)

lemma addToSyncQueue_open_success:
  assumes "db w" and "addToSyncQueue e ty ac d w = (w', Inr k)"
  shows "w' = w\<lparr>syncQueue := syncQueue w @ [length (heap w)],
               heap := heap w @ [new_item e ty ac d],
               store := insort_key id' (new_item e ty ac d) (store w)\<rparr>"
    and "k = id' (new_item e ty ac d)"
    and "k \<notin> id' ` set (store w)"
  using assms by (simp_all add: addToSyncQueue_open split: if_splits)

lemma listed_init_reload:
  "open_ok e \<Longrightarrow> getAll_ok e \<Longrightarrow> listed (fst (init e (reload w))) = store w"
  by (simp add: init_def reload_def loadSyncQueue_def idb_getAll_def listed_eq map_nth)

lemma round_trip_open:
  assumes "db w0" and "syncQueue w0 = []" and "store w0 = []"
    and "addToSyncQueue e1 t1 a1 d1 w0 = (w1, Inr k1)"
    and "addToSyncQueue e2 t2 a2 d2 w1 = (w2, Inr k2)"
    and "addToSyncQueue e3 t3 a3 d3 w2 = (w3, Inr k3)"
    and "open_ok e" and "getAll_ok e"
  shows "listed w3 = [new_item e1 t1 a1 d1, new_item e2 t2 a2 d2, new_item e3 t3 a3 d3]
       \<and> map id' (listed w3) = [k1, k2, k3]
       \<and> set (listed (fst (init e (reload w3)))) = set (listed w3)
       \<and> length (listed (fst (init e (reload w3)))) = 3
       \<and> sorted (map id' (listed (fst (init e (reload w3)))))
       \<and> (\<forall>x\<in>set (listed (fst (init e (reload w3)))). retries x = 0)
       \<and> (listed (fst (init e (reload w3))) = listed w3 \<longleftrightarrow> k1 < k2 \<and> k2 < k3)"
proof -
  let ?A = "new_item e1 t1 a1 d1" and ?B = "new_item e2 t2 a2 d2" and ?C = "new_item e3 t3 a3 d3"
  note s1 = addToSyncQueue_open_success [OF assms(1) assms(4)]
  have db1: "db w1" using s1(1) assms(1) by simp
  note s2 = addToSyncQueue_open_success [OF db1 assms(5)]
  have db2: "db w2" using s2(1) db1 by simp
  note s3 = addToSyncQueue_open_success [OF db2 assms(6)]
  have st1: "store w1 = [?A]" using s1(1) assms(3) by simp
  have st2: "store w2 = insort_key id' ?B [?A]" using s2(1) st1 by simp
  have st3: "store w3 = insort_key id' ?C (insort_key id' ?B [?A])" using s3(1) st2 by simp
  have set2: "set (store w2) = {?A, ?B}"
    unfolding st2 by (auto simp add: set_insort_key simp del: insort_key.simps)
  have ne: "k2 \<noteq> k1" "k3 \<noteq> k1" "k3 \<noteq> k2"
    using s2(3) s3(3) s1(2) s2(2) st1 set2 by auto
  have k: "id' ?A = k1" "id' ?B = k2" "id' ?C = k3"
    using s1(2) s2(2) s3(2) by simp_all
  have l3: "listed w3 = [?A, ?B, ?C]"
    using s1(1) s2(1) s3(1) assms(2) by (simp add: listed_eq nth_append)
  have after: "listed (fst (init e (reload w3))) = store w3"
    using assms(7,8) by (rule listed_init_reload)
  have sorted3: "sorted (map id' (store w3))"
    unfolding st3 by (simp add: sorted_insort_key del: insort_key.simps)
  have set3: "set (store w3) = {?A, ?B, ?C}"
    unfolding st3 by (auto simp add: set_insort_key simp del: insort_key.simps)
  have len3: "length (store w3) = 3"
    unfolding st3 by (simp del: insort_key.simps)
  have ord: "store w3 = [?A, ?B, ?C]" if "k1 < k2" "k2 < k3"
    unfolding st3 using that k by auto
  have conv: "k1 < k2 \<and> k2 < k3" if "store w3 = [?A, ?B, ?C]"
  proof -
    have "sorted [k1, k2, k3]" using sorted3 that k by simp
    with ne show ?thesis by auto
  qed
  show ?thesis
    unfolding after l3 using sorted3 set3 len3 ord conv k by auto
qed

subsection \<open>Sequences of calls on the service\<close>

lemma listed_push:
  assumes "valid_refs w"
  shows "listed (w\<lparr>syncQueue := syncQueue w @ [length (heap w)], heap := heap w @ [x],
                   store := st\<rparr>) = listed w @ [x]"
  using assms by (simp add: listed_eq valid_refs_def nth_append)

lemma run_fifo:
  assumes "db w \<or> (syncQueue w = [] \<and> store w = [])"
    and "valid_refs w" and "map id' (listed w) = ks"
  shows "map id' (listed (fst (run cs w ks))) = snd (run cs w ks)"
  using assms
proof (induction cs w ks rule: run.induct)
  case (1 w ks)
  then show ?case by simp
next
  case (2 e ty ac d cs w ks)
  define w0 where "w0 = (if db w then w else fst (init e w))"
  let ?w0 = w0
  let ?x = "new_item e ty ac d"
  have q0: "syncQueue ?w0 = syncQueue w" and h0: "heap ?w0 = heap w" and s0: "store ?w0 = store w"
    and d0: "db ?w0 = (db w \<or> open_ok e)"
    using "2.prems"(1) by (auto simp add: w0_def init_fresh)
  have l0: "listed ?w0 = listed w"
    unfolding listed_eq q0 h0 ..
  have v0: "valid_refs ?w0"
    using "2.prems"(2) unfolding valid_refs_def q0 h0 .
  have i0: "db ?w0 \<or> (syncQueue ?w0 = [] \<and> store ?w0 = [])"
    using "2.prems"(1) unfolding q0 s0 d0 by auto
  consider (closed) "\<not> db w" "\<not> open_ok e"
    | (ok) "db w \<or> open_ok e" "add_ok e \<and> id' ?x \<notin> id' ` set (store w)"
    | (fail) "db w \<or> open_ok e" "\<not> (add_ok e \<and> id' ?x \<notin> id' ` set (store w))"
    by blast
  then show ?case
  proof cases
    case closed
    then have eq: "addToSyncQueue e ty ac d w = (w, Inl OpenError)"
      by (simp add: addToSyncQueue_cases)
    show ?thesis
      using "2.IH"(1) [OF eq [symmetric] refl] "2.prems" by (simp add: eq)
  next
    case ok
    let ?w' = "?w0\<lparr>syncQueue := syncQueue ?w0 @ [length (heap ?w0)],
               heap := heap ?w0 @ [?x], store := insort_key id' ?x (store w)\<rparr>"
    have eq: "addToSyncQueue e ty ac d w = (?w', Inr (id' ?x))"
      using ok by (simp add: addToSyncQueue_cases w0_def del: new_item_simps)
    have "db ?w'" using ok d0 by simp
    moreover have "valid_refs ?w'"
      using v0 by (auto simp add: valid_refs_def)
    moreover have "map id' (listed ?w') = fifo_enqueue (id' ?x) ks"
      using v0 l0 "2.prems"(3) by (simp add: listed_push fifo_enqueue_def del: new_item_simps)
    ultimately show ?thesis
      using "2.IH"(2) [OF eq [symmetric] refl] by (simp add: eq del: new_item_simps)
  next
    case fail
    let ?err = "if add_ok e then ConstraintError else RequestError"
    have eq: "addToSyncQueue e ty ac d w = (?w0, Inl ?err)"
      using fail by (simp add: addToSyncQueue_cases w0_def del: new_item_simps)
    show ?thesis
      using "2.IH"(1) [OF eq [symmetric] refl i0 v0] l0 "2.prems"(3) by (simp add: eq)
  qed
next
  case (3 e k cs w ks)
  consider (closed) "\<not> db w" | (ok) "db w" "delete_ok e k" | (fail) "db w" "\<not> delete_ok e k"
    by blast
  then show ?case
  proof cases
    case closed
    with "3.prems"(1) have "syncQueue w = []" by simp
    then have ks: "ks = []" using "3.prems"(3) by (simp add: listed_eq)
    have eq: "removeFromSyncQueue e k w = (w, Inr ())"
      using closed by (simp add: removeFromSyncQueue_def)
    show ?thesis
      using "3.IH"(2) [OF eq [symmetric] refl] "3.prems" ks by (simp add: eq fifo_remove_def)
  next
    case ok
    let ?w' = "w\<lparr>syncQueue := filter (\<lambda>r. id' (heap w ! r) \<noteq> k) (syncQueue w),
               store := filter (\<lambda>x. id' x \<noteq> k) (store w)\<rparr>"
    have eq: "removeFromSyncQueue e k w = (?w', Inr ())"
      using ok by (simp add: removeFromSyncQueue_def idb_delete_def)
    have "db ?w'" using ok by simp
    moreover have "valid_refs ?w'"
      using "3.prems"(2) by (auto simp add: valid_refs_def)
    moreover have "map id' (listed ?w') = fifo_remove k ks"
      using "3.prems"(3) by (auto simp add: listed_eq fifo_remove_def filter_map comp_def)
    ultimately show ?thesis
      using "3.IH"(2) [OF eq [symmetric] refl] by (simp add: eq)
  next
    case fail
    have eq: "removeFromSyncQueue e k w = (w, Inl RequestError)"
      using fail by (simp add: removeFromSyncQueue_def idb_delete_def)
    show ?thesis
      using "3.IH"(1) [OF eq [symmetric] refl] "3.prems" by (simp add: eq)
  qed
next
  case (4 e f cs w ks)
  let ?w' = "fst (syncWhenOnline e f w)"
  obtain D where D: "syncQueue ?w' = filter (\<lambda>q. id' (heap w ! q) \<notin> D) (syncQueue w)"
      "store ?w' = filter (\<lambda>x. id' x \<notin> D) (store w)"
    using syncWhenOnline_deletes [of e f w] by blast
  have l: "map id' (listed ?w') = filter (\<lambda>k. k \<notin> D) ks"
    using "4.prems"(3) by (auto simp add: listed_eq D filter_map comp_def)
  have "db ?w' \<or> (syncQueue ?w' = [] \<and> store ?w' = [])"
    using "4.prems"(1) by (auto simp add: D)
  moreover have "valid_refs ?w'"
    using "4.prems"(2) by (auto simp add: valid_refs_def D)
  moreover have "map id' (listed ?w') = fifo_retain (id' ` set (listed ?w')) ks"
  proof -
    have "id' ` set (listed ?w') = set (filter (\<lambda>k. k \<notin> D) ks)"
      using l by (metis set_map)
    then show ?thesis
      unfolding l fifo_retain_def by (auto intro!: filter_cong)
  qed
  ultimately show ?case
    using "4.IH" [OF prod.collapse] by (simp add: case_prod_beta)
qed

lemma run_unrelated:
  assumes "no_replay cs" and "set (targets cs) \<inter> (set ks \<union> set (enqueued cs w)) = {}"
  shows "snd (run cs w ks) = ks @ enqueued cs w"
  using assms
proof (induction cs w ks rule: run.induct)
  case (1 w ks)
  then show ?case by simp
next
  case (2 e ty ac d cs w ks)
  obtain w' res where eq: "addToSyncQueue e ty ac d w = (w', res)"
    by (cases "addToSyncQueue e ty ac d w")
  show ?case
  proof (cases res)
    case (Inl err)
    with "2.IH"(1) [OF eq [symmetric] Inl] "2.prems" eq show ?thesis by simp
  next
    case (Inr k)
    with "2.IH"(2) [OF eq [symmetric] Inr] "2.prems" eq show ?thesis
      by (auto simp add: fifo_enqueue_def)
  qed
next
  case (3 e k cs w ks)
  obtain w' res where eq: "removeFromSyncQueue e k w = (w', res)"
    by (cases "removeFromSyncQueue e k w")
  have k: "filter (\<lambda>i. i \<noteq> k) ks = ks"
    using "3.prems" by (auto simp add: filter_id_conv)
  show ?case
  proof (cases res)
    case (Inl err)
    with "3.IH"(1) [OF eq [symmetric] Inl] "3.prems" eq show ?thesis by simp
  next
    case (Inr u)
    with "3.IH"(2) [OF eq [symmetric] Inr] "3.prems" eq k show ?thesis
      by (simp add: fifo_remove_def)
  qed
next
  case (4 e f cs w ks)
  then show ?case by simp
qed

lemma retain_filter:
  assumes "ks = filter (\<lambda>i. i \<in> set ks) pre"
  shows "filter P ks = filter (\<lambda>i. i \<in> set (filter P ks)) pre"
proof -
  have "filter (\<lambda>i. i \<in> set (filter P ks)) pre = filter P (filter (\<lambda>i. i \<in> set ks) pre)"
    by (auto intro!: filter_cong)
  with assms show ?thesis by simp
qed

lemma retain_snoc:
  assumes "ks = filter (\<lambda>i. i \<in> set ks) pre" and "k \<notin> set pre"
  shows "ks @ [k] = filter (\<lambda>i. i \<in> set (ks @ [k])) (pre @ [k])"
proof -
  have "filter (\<lambda>i. i \<in> set (ks @ [k])) pre = filter (\<lambda>i. i \<in> set ks) pre"
    using assms(2) by (auto intro!: filter_cong)
  with assms(1) show ?thesis by simp
qed

lemma run_survivors:
  assumes "ks = filter (\<lambda>i. i \<in> set ks) pre" and "distinct (pre @ enqueued cs w)"
  shows "snd (run cs w ks) = filter (\<lambda>i. i \<in> set (snd (run cs w ks))) (pre @ enqueued cs w)"
  using assms
proof (induction cs w ks arbitrary: pre rule: run.induct)
  case (1 w ks)
  then show ?case by simp
next
  case (2 e ty ac d cs w ks)
  obtain w' res where eq: "addToSyncQueue e ty ac d w = (w', res)"
    by (cases "addToSyncQueue e ty ac d w")
  show ?case
  proof (cases res)
    case (Inl err)
    with "2.IH"(1) [OF eq [symmetric] Inl, of pre] "2.prems" eq show ?thesis by simp
  next
    case (Inr k)
    have d: "distinct ((pre @ [k]) @ enqueued cs w')" and k: "k \<notin> set pre"
      using "2.prems"(2) eq Inr by simp_all
    have "fifo_enqueue k ks = filter (\<lambda>i. i \<in> set (fifo_enqueue k ks)) (pre @ [k])"
      unfolding fifo_enqueue_def using "2.prems"(1) k by (rule retain_snoc)
    from "2.IH"(2) [OF eq [symmetric] Inr this d] eq Inr show ?thesis by simp
  qed
next
  case (3 e k cs w ks)
  obtain w' res where eq: "removeFromSyncQueue e k w = (w', res)"
    by (cases "removeFromSyncQueue e k w")
  show ?case
  proof (cases res)
    case (Inl err)
    with "3.IH"(1) [OF eq [symmetric] Inl, of pre] "3.prems" eq show ?thesis by simp
  next
    case (Inr u)
    have "fifo_remove k ks = filter (\<lambda>i. i \<in> set (fifo_remove k ks)) pre"
      unfolding fifo_remove_def using "3.prems"(1) by (rule retain_filter)
    moreover have "distinct (pre @ enqueued cs w')"
      using "3.prems"(2) eq by simp
    ultimately show ?thesis
      using "3.IH"(2) [OF eq [symmetric] Inr, of pre] eq Inr by simp
  qed
next
  case (4 e f cs w ks)
  let ?w' = "fst (syncWhenOnline e f w)"
  have "fifo_retain (id' ` set (listed ?w')) ks
      = filter (\<lambda>i. i \<in> set (fifo_retain (id' ` set (listed ?w')) ks)) pre"
    unfolding fifo_retain_def using "4.prems"(1) by (rule retain_filter)
  moreover have "distinct (pre @ enqueued cs ?w')"
    using "4.prems"(2) by simp
  ultimately show ?case
    using "4.IH" [OF prod.collapse, of pre] by (simp add: case_prod_beta)
qed

lemma syncWhenOnline_empty:
  "syncQueue w = [] \<Longrightarrow> syncWhenOnline e f w = (w, [])"
  by (simp add: syncWhenOnline_loop)

subsection \<open>The states of a run\<close>

lemma listed_loaded:
  "map ((!) (xs @ ys)) [length xs..<length xs + length ys] = ys"
proof -
  have "[length xs..<length xs + length ys] = map (\<lambda>i. i + length xs) [0..<length ys]"
    by (simp add: map_add_upt add.commute)
  then have "map ((!) (xs @ ys)) [length xs..<length xs + length ys]
      = map (\<lambda>i. ys ! i) [0..<length ys]"
    by (simp add: comp_def nth_append)
  then show ?thesis by (simp add: map_nth)
qed

lemma listed_init:
  "open_ok e \<Longrightarrow> getAll_ok e \<Longrightarrow> listed (fst (init e w)) = store w"
  by (simp add: init_def loadSyncQueue_def idb_getAll_def listed_eq listed_loaded)

lemma coherent_world0: "coherent world0"
  by (simp add: coherent_def wf_def world0_def listed_eq)

lemma coherent_loadSyncQueue:
  assumes "coherent w"
  shows "coherent (loadSyncQueue e w)"
proof (cases "db w \<and> getAll_ok e")
  case True
  let ?w' = "w\<lparr>syncQueue := [length (heap w)..<length (heap w) + length (store w)],
               heap := heap w @ store w\<rparr>"
  have eq: "loadSyncQueue e w = ?w'"
    using True by (simp add: loadSyncQueue_def idb_getAll_def)
  have l: "listed ?w' = store w"
    by (simp add: listed_eq listed_loaded)
  show ?thesis
    using assms unfolding eq coherent_def wf_def l by simp
next
  case False
  then have "loadSyncQueue e w = w"
    by (auto simp add: loadSyncQueue_def idb_getAll_def)
  with assms show ?thesis by simp
qed

lemma coherent_db:
  assumes "coherent w"
  shows "coherent (w\<lparr>db := b\<rparr>)"
  using assms by (simp add: coherent_def wf_def listed_eq)

lemma coherent_init:
  assumes "coherent w"
  shows "coherent (fst (init e w))"
  using assms by (simp add: init_def coherent_loadSyncQueue coherent_db)

lemma coherent_push:
  assumes "coherent w" and "id' x \<notin> id' ` set (store w)" and "retries x = 0"
  shows "coherent (w\<lparr>syncQueue := syncQueue w @ [length (heap w)],
               heap := heap w @ [x], store := insort_key id' x (store w)\<rparr>)"
    (is "coherent ?w'")
proof -
  have v: "valid_refs w" using assms(1) by (simp add: coherent_def wf_def valid_refs_def)
  have l: "listed ?w' = listed w @ [x]"
    using v by (rule listed_push)
  have fresh: "length (heap w) \<notin> set (syncQueue w)"
    using v by (auto simp add: valid_refs_def)
  have new: "id' x \<notin> id' ` set (listed w)"
    using assms(1,2) by (auto simp add: coherent_def)
  have 1: "distinct (syncQueue ?w')"
    using assms(1) fresh by (simp add: coherent_def wf_def)
  have 2: "\<forall>r\<in>set (syncQueue ?w'). r < length (heap ?w')"
    using v by (auto simp add: valid_refs_def less_Suc_eq)
  have 3: "distinct (map id' (listed ?w'))"
    unfolding l using assms(1) new by (simp add: coherent_def wf_def)
  have 4: "id' ` set (listed ?w') \<subseteq> id' ` set (store ?w')"
    unfolding l using assms(1) by (auto simp add: coherent_def set_insort_key simp del: insort_key.simps)
  have 5: "distinct (map id' (store ?w'))"
    using assms(1,2) by (simp add: coherent_def distinct_insort_key del: insort_key.simps)
  have 6: "sorted (map id' (store ?w'))"
    using assms(1) by (simp add: coherent_def sorted_insort_key del: insort_key.simps)
  have 7: "\<forall>x\<in>set (store ?w'). retries x = 0"
    using assms(1,3) by (simp add: coherent_def set_insort_key del: insort_key.simps)
  show ?thesis
    unfolding coherent_def wf_def using 1 2 3 4 5 6 7 by blast
qed

lemma coherent_addToSyncQueue:
  assumes "coherent w"
  shows "coherent (fst (addToSyncQueue e ty ac d w))"
proof -
  define w0 where "w0 = (if db w then w else fst (init e w))"
  have c0: "coherent w0"
    using assms by (simp add: w0_def coherent_init)
  have s0: "store w0 = store w" by (simp add: w0_def)
  have "fst (addToSyncQueue e ty ac d w) = w \<or> fst (addToSyncQueue e ty ac d w) = w0
      \<or> (id' (new_item e ty ac d) \<notin> id' ` set (store w0)
          \<and> fst (addToSyncQueue e ty ac d w)
              = w0\<lparr>syncQueue := syncQueue w0 @ [length (heap w0)],
                   heap := heap w0 @ [new_item e ty ac d],
                   store := insort_key id' (new_item e ty ac d) (store w0)\<rparr>)"
    unfolding s0 by (simp add: addToSyncQueue_cases w0_def del: new_item_simps insort_key.simps)
  then show ?thesis
    using assms c0 coherent_push [OF c0, of "new_item e ty ac d"] by auto
qed

lemma coherent_removeFromSyncQueue:
  assumes "coherent w"
  shows "coherent (fst (removeFromSyncQueue e k w))"
proof (cases "db w \<and> delete_ok e k")
  case True
  let ?w' = "w\<lparr>syncQueue := filter (\<lambda>r. id' (heap w ! r) \<noteq> k) (syncQueue w),
               store := filter (\<lambda>x. id' x \<noteq> k) (store w)\<rparr>"
  have eq: "fst (removeFromSyncQueue e k w) = ?w'"
    using True by (simp add: removeFromSyncQueue_def idb_delete_def)
  have l: "map id' (listed ?w') = filter (\<lambda>i. i \<noteq> k) (map id' (listed w))"
    by (simp add: listed_eq filter_map comp_def)
  have sub: "id' ` set (listed ?w') \<subseteq> id' ` set (store ?w')"
    using assms by (auto simp add: coherent_def listed_eq)
  have st: "map id' (store ?w') = filter (\<lambda>i. i \<noteq> k) (map id' (store w))"
    by (simp add: filter_map comp_def)
  show ?thesis
    using assms sub unfolding eq coherent_def wf_def l st
    by (auto simp add: sorted_wrt_filter)
next
  case False
  then have "fst (removeFromSyncQueue e k w) = w"
    by (auto simp add: removeFromSyncQueue_def idb_delete_def)
  with assms show ?thesis by simp
qed

lemma coherent_syncWhenOnline:
  assumes "coherent w"
  shows "coherent (fst (syncWhenOnline e f w))"
proof -
  let ?w' = "fst (syncWhenOnline e f w)"
  obtain D where D: "syncQueue ?w' = filter (\<lambda>q. id' (heap w ! q) \<notin> D) (syncQueue w)"
     "store ?w' = filter (\<lambda>x. id' x \<notin> D) (store w)"
    using syncWhenOnline_deletes [of e f w] by blast
  have l: "map id' (listed ?w') = filter (\<lambda>k. k \<notin> D) (map id' (listed w))"
    by (simp add: listed_eq D filter_map comp_def)
  have st: "map id' (store ?w') = filter (\<lambda>i. i \<notin> D) (map id' (store w))"
    by (simp add: D filter_map comp_def)
  have "set (map id' (listed ?w')) \<subseteq> set (map id' (store ?w'))"
    using assms unfolding l st coherent_def by auto
  then have sub: "id' ` set (listed ?w') \<subseteq> id' ` set (store ?w')" by simp
  have w: "wf ?w'" using assms by (simp add: coherent_def syncWhenOnline_wf)
  have "distinct (map id' (store ?w'))" "sorted (map id' (store ?w'))"
    using assms unfolding st coherent_def by (simp_all add: sorted_wrt_filter)
  moreover have "\<forall>x\<in>set (store ?w'). retries x = 0"
    using assms by (simp add: D coherent_def)
  ultimately show ?thesis using w sub by (simp add: coherent_def)
qed

lemma coherent_reload:
  assumes "coherent w"
  shows "coherent (reload w)"
  using assms by (simp add: coherent_def wf_def reload_def listed_eq)

lemma reachable_coherent: "reachable w \<Longrightarrow> coherent w"
  by (induction rule: reachable.induct)
     (simp_all add: coherent_world0 coherent_reload coherent_init coherent_addToSyncQueue
        coherent_removeFromSyncQueue coherent_syncWhenOnline)

lemma reachable_wf: "reachable w \<Longrightarrow> wf w"
  using reachable_coherent [of w] by (simp add: coherent_def)

subsection \<open>The example run, evaluated\<close>

lemma env_at_simps [simp]:
  "onLine (env_at n s)" "open_ok (env_at n s)" "getAll_ok (env_at n s)" "add_ok (env_at n s)"
  "delete_ok (env_at n s) k" "dateNow1 (env_at n s) = n" "dateNow2 (env_at n s) = n"
  "mathRandom (env_at n s) = s"
  by (simp_all add: env_at_def)

lemma env_later_simps [simp]:
  "onLine env_later" "open_ok env_later" "getAll_ok env_later" "delete_ok env_later k"
  by (simp_all add: env_later_def)

lemma env_add_fails_simps [simp]:
  "open_ok env_add_fails" "getAll_ok env_add_fails" "\<not> add_ok env_add_fails"
  by (simp_all add: env_add_fails_def)

lemma mk_id_examples [simp]:
  "mk_id 1700000000000 ''k3x9q2m1z'' = ''1700000000000-k3x9q2m1z''"
  "mk_id 1700000000250 ''a8d0f5c7b'' = ''1700000000250-a8d0f5c7b''"
  "mk_id 1700000000500 ''p0w4e6r2t'' = ''1700000000500-p0w4e6r2t''"
  "mk_id 1700000000000 ''a8d0f5c7b'' = ''1700000000000-a8d0f5c7b''"
  by (simp_all add: mk_id_def show_nat.simps digit_char_def)

lemma new_item_examples [simp]:
  "new_item (env_at 1700000000000 ''k3x9q2m1z'') Transaction Create 11 = item_A"
  "new_item (env_at 1700000000250 ''a8d0f5c7b'') Inventory Update 22 = item_B"
  "new_item (env_at 1700000000500 ''p0w4e6r2t'') Customer Delete 33 = item_C"
  "new_item (env_at 1700000000000 ''a8d0f5c7b'') Inventory Update 22 = item_B2"
  by (simp_all add: new_item_def item_A_def item_B_def item_C_def item_B2_def)

lemma item_ids [simp]:
  "id' item_A = ''1700000000000-k3x9q2m1z''"
  "id' item_B = ''1700000000250-a8d0f5c7b''"
  "id' item_C = ''1700000000500-p0w4e6r2t''"
  "id' item_B2 = ''1700000000000-a8d0f5c7b''"
  "retries item_A = 0" "retries item_B = 0" "retries item_C = 0" "retries item_B2 = 0"
  by (simp_all add: item_A_def item_B_def item_C_def item_B2_def)

lemma world_init_eq:
  "world_init = \<lparr>db = True, syncQueue = [], heap = [], store = []\<rparr>"
  by (simp add: world_init_def world0_def init_def loadSyncQueue_def idb_getAll_def)

lemma add_A:
  "addToSyncQueue (env_at 1700000000000 ''k3x9q2m1z'') Transaction Create 11 world_init
     = (\<lparr>db = True, syncQueue = [0], heap = [item_A], store = [item_A]\<rparr>,
        Inr ''1700000000000-k3x9q2m1z'')"
  by (simp add: world_init_eq addToSyncQueue_open del: new_item_simps)

lemma world_A_eq:
  "world_A = \<lparr>db = True, syncQueue = [0], heap = [item_A], store = [item_A]\<rparr>"
  by (simp add: world_A_def add_A)

lemma add_B:
  "addToSyncQueue (env_at 1700000000250 ''a8d0f5c7b'') Inventory Update 22 world_A
     = (\<lparr>db = True, syncQueue = [0, 1], heap = [item_A, item_B], store = [item_A, item_B]\<rparr>,
        Inr ''1700000000250-a8d0f5c7b'')"
  by (simp add: world_A_eq addToSyncQueue_open)

lemma world_AB_eq:
  "world_AB = \<lparr>db = True, syncQueue = [0, 1], heap = [item_A, item_B], store = [item_A, item_B]\<rparr>"
  by (simp add: world_AB_def add_B)

lemma add_C:
  "addToSyncQueue (env_at 1700000000500 ''p0w4e6r2t'') Customer Delete 33 world_AB
     = (\<lparr>db = True, syncQueue = [0, 1, 2], heap = [item_A, item_B, item_C],
          store = [item_A, item_B, item_C]\<rparr>,
        Inr ''1700000000500-p0w4e6r2t'')"
  by (simp add: world_AB_eq addToSyncQueue_open)

lemma world_ABC_eq:
  "world_ABC = \<lparr>db = True, syncQueue = [0, 1, 2], heap = [item_A, item_B, item_C],
     store = [item_A, item_B, item_C]\<rparr>"
  by (simp add: world_ABC_def add_C)

lemma world_AB2C_eq:
  "world_AB2C = \<lparr>db = True, syncQueue = [0, 1, 2], heap = [item_A, item_B2, item_C],
     store = [item_B2, item_A, item_C]\<rparr>"
  by (simp add: world_AB2C_def world_AB2_def world_A_eq addToSyncQueue_open)

lemma world_ABC_simps [simp]:
  "db world_ABC" "syncQueue world_ABC = [0, 1, 2]"
  "heap world_ABC = [item_A, item_B, item_C]" "store world_ABC = [item_A, item_B, item_C]"
  by (simp_all add: world_ABC_eq)

lemma listed_world_ABC [simp]: "listed world_ABC = [item_A, item_B, item_C]"
  by (simp add: listed_eq)

lemma wf_world_ABC [simp]: "wf world_ABC"
  by (simp add: wf_def)

lemma world_init_simps [simp]:
  "db world_init" "syncQueue world_init = []" "store world_init = []" "listed world_init = []"
  "wf world_init"
  by (simp_all add: world_init_eq listed_eq wf_def)

lemma world_A_simps [simp]:
  "db world_A" "store world_A = [item_A]"
  by (simp_all add: world_A_eq)

lemma world_AB_simps [simp]:
  "db world_AB" "store world_AB = [item_A, item_B]"
  by (simp_all add: world_AB_eq)

lemma add_A_world: 
  "addToSyncQueue (env_at 1700000000000 ''k3x9q2m1z'') Transaction Create 11 world_init
     = (world_A, Inr ''1700000000000-k3x9q2m1z'')"
  by (simp add: add_A world_A_eq)

lemma world0_simps:
  "\<not> db world0" "syncQueue world0 = []" "store world0 = []"
  by (simp_all add: world0_def)

lemma add_A_world0:
  "addToSyncQueue (env_at 1700000000000 ''k3x9q2m1z'') Transaction Create 11 world0
     = (world_A, Inr ''1700000000000-k3x9q2m1z'')"
  by (simp add: addToSyncQueue_cases world0_def world_A_eq init_def loadSyncQueue_def
      idb_getAll_def del: new_item_simps)

lemma add_B_world:
  "addToSyncQueue (env_at 1700000000250 ''a8d0f5c7b'') Inventory Update 22 world_A
     = (world_AB, Inr ''1700000000250-a8d0f5c7b'')"
  by (simp add: add_B world_AB_eq)

lemma add_C_world:
  "addToSyncQueue (env_at 1700000000500 ''p0w4e6r2t'') Customer Delete 33 world_AB
     = (world_ABC, Inr ''1700000000500-p0w4e6r2t'')"
  by (simp add: add_C world_ABC_eq)

lemma remove_unrelated_world_AB:
  "removeFromSyncQueue (env_at 1700000000300 []) ''1600000000000-m5n6b7v8c'' world_AB
     = (world_AB, Inr ())"
  by (simp add: removeFromSyncQueue_def idb_delete_def world_AB_eq item_A_def item_B_def)

lemmas pass_eval =
  syncWhenOnline_loop sync_item_unfold incr_retries_def submit_always_def
  item_A_def item_B_def item_C_def

lemma passes_unfold:
  "passes 5 r = [(env_later, submit_always r), (env_later, submit_always r),
     (env_later, submit_always r), (env_later, submit_always r), (env_later, submit_always r)]"
  "passes 6 r = [(env_later, submit_always r), (env_later, submit_always r),
     (env_later, submit_always r), (env_later, submit_always r), (env_later, submit_always r),
     (env_later, submit_always r)]"
  by (simp_all add: passes_def eval_nat_numeral)

lemma world_ABC_five:
  "replays (passes 5 (Resolved False)) world_ABC
   = \<lparr>db = True, syncQueue = [0, 1, 2],
      heap = [item_A\<lparr>retries := 5\<rparr>, item_B\<lparr>retries := 5\<rparr>, item_C\<lparr>retries := 5\<rparr>],
      store = [item_A, item_B, item_C]\<rparr>"
  by (simp add: passes_unfold world_ABC_eq pass_eval)

lemma world_ABC_six:
  "replays (passes 6 (Resolved False)) world_ABC
   = \<lparr>db = True, syncQueue = [],
      heap = [item_A\<lparr>retries := 6\<rparr>, item_B\<lparr>retries := 6\<rparr>, item_C\<lparr>retries := 6\<rparr>],
      store = []\<rparr>"
  by (simp add: passes_unfold world_ABC_eq pass_eval)

lemma reload_simps:
  "\<not> db (reload w)" "syncQueue (reload w) = []" "heap (reload w) = []"
  "store (reload w) = store w"
  by (simp_all add: reload_def)

lemma world_AB2C_reloaded:
  "fst (init (env_at n rnd) (reload world_AB2C))
     = \<lparr>db = True, syncQueue = [0, 1, 2], heap = [item_B2, item_A, item_C],
        store = [item_B2, item_A, item_C]\<rparr>"
  by (simp add: init_def reload_def loadSyncQueue_def idb_getAll_def world_AB2C_eq)

lemma replay_world_AB:
  "syncWhenOnline (env_at 1700000000300 []) (submit_failing_for ''1700000000250-a8d0f5c7b'')
      world_AB
     = (\<lparr>db = True, syncQueue = [1], heap = [item_A, item_B\<lparr>retries := 1\<rparr>],
         store = [item_B]\<rparr>, [item_A, item_B])"
  by (simp add: world_AB_eq pass_eval submit_failing_for_def sync_loop.simps(2))

lemma add_C_after_replay:
  "addToSyncQueue (env_at 1700000000500 ''p0w4e6r2t'') Customer Delete 33
      \<lparr>db = True, syncQueue = [Suc 0], heap = [item_A, item_B\<lparr>retries := Suc 0\<rparr>],
       store = [item_B]\<rparr>
     = (\<lparr>db = True, syncQueue = [1, 2], heap = [item_A, item_B\<lparr>retries := 1\<rparr>, item_C],
         store = [item_B, item_C]\<rparr>, Inr ''1700000000500-p0w4e6r2t'')"
  by (simp add: addToSyncQueue_open)

lemma enqueued_calls_replay_example:
  "enqueued calls_replay_example world_init
     = [''1700000000000-k3x9q2m1z'', ''1700000000250-a8d0f5c7b'', ''1700000000500-p0w4e6r2t'']"
  by (simp add: calls_replay_example_def add_A_world add_B_world replay_world_AB
      add_C_after_replay)

lemma run_calls_replay_example:
  "run calls_replay_example world_init []
     = (\<lparr>db = True, syncQueue = [1, 2], heap = [item_A, item_B\<lparr>retries := 1\<rparr>, item_C],
         store = [item_B, item_C]\<rparr>,
        [''1700000000250-a8d0f5c7b'', ''1700000000500-p0w4e6r2t''])"
  by (simp add: calls_replay_example_def add_A_world add_B_world replay_world_AB
      add_C_after_replay fifo_enqueue_def fifo_retain_def listed_eq)

section \<open>The claims\<close>

subsection \<open>Bounded retry\<close>

text \<open>
  Five passes in which every call of \<open>syncFunction\<close> resolves \<open>false\<close> leave the three
  operations of the example run in the queue and in the object store, with
  \<open>retries = 5\<close>: the test of the loop is \<open>item.retries > 5\<close>, after the increment.
\<close>

theorem bounded_retry_counterexample:
  "listed (replays (passes 5 (Resolved False)) world_ABC)
     = [item_A\<lparr>retries := 5\<rparr>, item_B\<lparr>retries := 5\<rparr>, item_C\<lparr>retries := 5\<rparr>]
   \<and> store (replays (passes 5 (Resolved False)) world_ABC) = [item_A, item_B, item_C]"
  by (simp add: world_ABC_five listed_eq)

text \<open>
  C1, amended. An operation of the queue that has not been retried, in passes that run
  online with working delete requests and in which every call of \<open>syncFunction\<close>
  resolves \<open>false\<close>: after \<open>n \<le> 5\<close> passes it is still queued, with \<open>retries = n\<close>;
  the sixth pass, whose increment takes \<open>retries\<close> from 5 to 6, removes it from the queue
  and from the object store, and it stays removed in every later pass.
\<close>

theorem bounded_retry:
  assumes "db w" and "wf w" and "r \<in> set (syncQueue w)" and "retries (heap w ! r) = 0"
    and "\<forall>p\<in>set ps. onLine (fst p) \<and> (\<forall>k. delete_ok (fst p) k) \<and> (\<forall>x. snd p x = Resolved False)"
  shows "(length ps \<le> 5 \<longrightarrow>
            r \<in> set (syncQueue (replays ps w))
          \<and> heap (replays ps w) ! r = (heap w ! r)\<lparr>retries := length ps\<rparr>)
       \<and> (6 \<le> length ps \<longrightarrow>
            id' (heap w ! r) \<notin> id' ` set (listed (replays ps w))
          \<and> id' (heap w ! r) \<notin> id' ` set (store (replays ps w)))"
  using assms(5)
proof (induction ps rule: rev_induct)
  case Nil
  show ?case using assms(3,4) by simp
next
  case (snoc p ps)
  let ?w = "replays ps w"
  let ?k = "id' (heap w ! r)"
  have p: "onLine (fst p)" "\<forall>k. delete_ok (fst p) k" "\<forall>x. snd p x = Resolved False"
    using snoc.prems by simp_all
  have ih: "(length ps \<le> 5 \<longrightarrow>
            r \<in> set (syncQueue ?w) \<and> heap ?w ! r = (heap w ! r)\<lparr>retries := length ps\<rparr>)
       \<and> (6 \<le> length ps \<longrightarrow> ?k \<notin> id' ` set (listed ?w) \<and> ?k \<notin> id' ` set (store ?w))"
    using snoc by simp
  have dbw: "db ?w" and wfw: "wf ?w"
    using assms(1,2) by (induction ps rule: rev_induct) (simp_all add: syncWhenOnline_wf)
  consider "length ps < 5" | "length ps = 5" | "6 \<le> length ps" by linarith
  then show ?case
  proof cases
    case 1
    with ih have r: "r \<in> set (syncQueue ?w)" and h: "heap ?w ! r = (heap w ! r)\<lparr>retries := length ps\<rparr>"
      by simp_all
    from h 1 have lt: "retries (heap ?w ! r) < 5" by simp
    show ?thesis
      using pass_all_false(1) [OF p dbw wfw r]
        pass_all_false(2) [OF p dbw wfw r lt] h 1
      by simp
  next
    case 2
    with ih have r: "r \<in> set (syncQueue ?w)" and h: "heap ?w ! r = (heap w ! r)\<lparr>retries := length ps\<rparr>"
      by simp_all
    from h 2 have ge: "5 \<le> retries (heap ?w ! r)" by simp
    have k: "id' (heap ?w ! r) = ?k" by (simp add: h)
    show ?thesis
      using pass_all_false(3) [OF p dbw wfw r ge] 2 by (simp add: k)
  next
    case 3
    with ih have "?k \<notin> id' ` set (listed ?w)" "?k \<notin> id' ` set (store ?w)" by simp_all
    from syncWhenOnline_gone [OF this, of "fst p" "snd p"] 3 show ?thesis by simp
  qed
qed

theorem bounded_retry_witness:
  "db world_ABC \<and> wf world_ABC \<and> 1 \<in> set (syncQueue world_ABC)
   \<and> retries (heap world_ABC ! 1) = 0
   \<and> 1 \<in> set (syncQueue (replays (passes 5 (Resolved False)) world_ABC))
   \<and> heap (replays (passes 5 (Resolved False)) world_ABC) ! 1 = item_B\<lparr>retries := 5\<rparr>
   \<and> id' item_B \<notin> id' ` set (listed (replays (passes 6 (Resolved False)) world_ABC))
   \<and> id' item_B \<notin> id' ` set (store (replays (passes 6 (Resolved False)) world_ABC))"
  using bounded_retry [of world_ABC 1 "passes 5 (Resolved False)"]
    bounded_retry [of world_ABC 1 "passes 6 (Resolved False)"]
  by (simp add: passes_def submit_always_def)

subsection \<open>A rejected submit\<close>

text \<open>
  C2. The \<open>catch\<close> block increments \<open>retries\<close> and does nothing else. On the example
  run after five failed passes (\<open>retries = 5\<close>), a pass in which \<open>syncFunction\<close> rejects
  leaves all three operations queued with \<open>retries = 6\<close>, where a pass in which it
  resolves \<open>false\<close> removes all three.
\<close>

theorem rejected_submit_is_never_dropped:
  "listed (fst (syncWhenOnline env_later (submit_always Rejected)
       (replays (passes 5 (Resolved False)) world_ABC)))
     = [item_A\<lparr>retries := 6\<rparr>, item_B\<lparr>retries := 6\<rparr>, item_C\<lparr>retries := 6\<rparr>]
   \<and> listed (fst (syncWhenOnline env_later (submit_always (Resolved False))
       (replays (passes 5 (Resolved False)) world_ABC))) = []"
  by (simp add: world_ABC_five listed_eq pass_eval)

subsection \<open>First in, first out\<close>

text \<open>
  Three operations enqueued in one session, the second in the millisecond of the first,
  then a page load and a fourth enqueue: the call finds \<open>this.db\<close> null and awaits
  \<open>init\<close>, which loads the stored records as \<open>getAll\<close> returns them, by key. All four
  operations survive, and the list is not in the order of the calls.
\<close>

theorem queue_is_fifo_counterexample:
  "listed world_AB2C = [item_A, item_B2, item_C]
   \<and> listed (fst (addToSyncQueue (env_at 1700000000250 ''a8d0f5c7b'') Inventory Update 22
        (reload world_AB2C))) = [item_B2, item_A, item_C, item_B]"
  by (simp add: addToSyncQueue_cases world_AB2C_reloaded reload_simps listed_eq)
     (simp add: world_AB2C_eq)

text \<open>
  C3, amended. On a service that is initialised, or is new on an empty database, after any
  sequence of calls of \<open>addToSyncQueue\<close>, \<open>removeFromSyncQueue\<close> and \<open>syncWhenOnline\<close>,
  whatever the requests and \<open>syncFunction\<close> do, the ids \<open>getSyncQueue\<close> lists are those
  of the specification's queue (an enqueue appends the id it returns, a remove deletes
  its id, a replay keeps the ids still listed in their places), in the same order. With
  unique ids, the list is the former list followed by the enqueued ids in the order of
  the calls, restricted to the ids that survive; and without a replay and without a remove
  of a listed or enqueued id, it is that whole list. An \<open>init\<close> whose requests succeed
  replaces the queue with the stored records as \<open>getAll\<close> returns them.
\<close>

theorem queue_is_fifo:
  assumes "db w \<or> (syncQueue w = [] \<and> store w = [])" and "wf w"
  shows "map id' (listed (fst (run cs w (map id' (listed w)))))
           = snd (run cs w (map id' (listed w)))
       \<and> (distinct (map id' (listed w) @ enqueued cs w) \<longrightarrow>
            map id' (listed (fst (run cs w (map id' (listed w)))))
              = filter (\<lambda>i. i \<in> id' ` set (listed (fst (run cs w (map id' (listed w))))))
                  (map id' (listed w) @ enqueued cs w))
       \<and> (no_replay cs
            \<and> set (targets cs) \<inter> (id' ` set (listed w) \<union> set (enqueued cs w)) = {} \<longrightarrow>
            map id' (listed (fst (run cs w (map id' (listed w)))))
              = map id' (listed w) @ enqueued cs w)
       \<and> (open_ok e \<and> getAll_ok e \<longrightarrow> listed (fst (init e v)) = store v)"
proof -
  let ?ks = "map id' (listed w)"
  have v: "valid_refs w" using assms(2) by (simp add: wf_def valid_refs_def)
  have a: "map id' (listed (fst (run cs w ?ks))) = snd (run cs w ?ks)"
    using assms(1) v refl by (rule run_fifo)
  have b: "snd (run cs w ?ks) = filter (\<lambda>i. i \<in> set (snd (run cs w ?ks))) (?ks @ enqueued cs w)"
    if "distinct (?ks @ enqueued cs w)"
    using _ that by (rule run_survivors) simp
  have s: "set (snd (run cs w ?ks)) = id' ` set (listed (fst (run cs w ?ks)))"
    using a by (metis set_map)
  have c: "snd (run cs w ?ks) = ?ks @ enqueued cs w"
    if "no_replay cs" "set (targets cs) \<inter> (id' ` set (listed w) \<union> set (enqueued cs w)) = {}"
    using that by (intro run_unrelated) simp_all
  have d: "listed (fst (init e v)) = store v" if "open_ok e" "getAll_ok e"
    using that by (rule listed_init)
  show ?thesis
    unfolding a using b c d unfolding s by blast
qed

theorem queue_is_fifo_witness:
  "db world_init \<and> wf world_init
   \<and> no_replay calls_example
   \<and> set (targets calls_example)
        \<inter> (id' ` set (listed world_init) \<union> set (enqueued calls_example world_init)) = {}
   \<and> map id' (listed (fst (run calls_example world_init (map id' (listed world_init)))))
       = [''1700000000000-k3x9q2m1z'', ''1700000000250-a8d0f5c7b'', ''1700000000500-p0w4e6r2t'']
   \<and> enqueued calls_replay_example world_init
       = [''1700000000000-k3x9q2m1z'', ''1700000000250-a8d0f5c7b'', ''1700000000500-p0w4e6r2t'']
   \<and> map id' (listed (fst (run calls_replay_example world_init (map id' (listed world_init)))))
       = [''1700000000250-a8d0f5c7b'', ''1700000000500-p0w4e6r2t'']
   \<and> open_ok env_later \<and> getAll_ok env_later
   \<and> listed (fst (init env_later world_AB2C)) = [item_B2, item_A, item_C]"
  using queue_is_fifo [of world_init calls_example env_later world_AB2C]
    queue_is_fifo [of world_init calls_replay_example env_later world_AB2C]
  by (simp add: enqueued_calls_replay_example run_calls_replay_example listed_init)
     (simp add: calls_example_def add_A_world add_B_world add_C_world remove_unrelated_world_AB
        fifo_enqueue_def fifo_remove_def world_AB2C_eq listed_eq)

subsection \<open>Every submit accepted\<close>

text \<open>
  After a page load the queue is the stored records in key order, and \<open>syncFunction\<close> is
  called in that order: for operations enqueued A, B2, C the calls are B2, A, C.
\<close>

theorem replay_all_accepted_counterexample:
  "listed world_AB2C = [item_A, item_B2, item_C]
   \<and> snd (syncWhenOnline env_later (submit_always (Resolved True))
        (fst (init env_later (reload world_AB2C)))) = [item_B2, item_A, item_C]"
  by (simp add: env_later_def world_AB2C_reloaded)
     (simp add: pass_eval item_B2_def sync_loop.simps(2) world_AB2C_eq listed_eq)

text \<open>
  C4, amended. When the browser is online, the delete requests succeed and \<open>syncFunction\<close>
  resolves \<open>true\<close> for every operation, one call of \<open>syncWhenOnline\<close> empties the
  queue, removes the records of all its operations from the object store, and has called
  \<open>syncFunction\<close> once per operation, in the order in which \<open>getSyncQueue\<close> lists them.
  When the queue is what calls of \<open>addToSyncQueue\<close>, \<open>removeFromSyncQueue\<close> and
  \<open>syncWhenOnline\<close> have made of the queue of a service initialised before them (or new
  on an empty database), with unique ids, that order is the order in which the surviving
  operations were enqueued.
\<close>

theorem replay_all_accepted:
  assumes "onLine e" and "\<forall>k. delete_ok e k" and "db w" and "wf w"
    and "\<forall>x. f x = Resolved True"
  shows "listed (fst (syncWhenOnline e f w)) = []
       \<and> snd (syncWhenOnline e f w) = listed w
       \<and> (\<forall>x\<in>set (listed w). id' x \<notin> id' ` set (store (fst (syncWhenOnline e f w))))
       \<and> ((db w0 \<or> (syncQueue w0 = [] \<and> store w0 = [])) \<and> wf w0
            \<and> distinct (map id' (listed w0) @ enqueued cs w0)
            \<and> w = fst (run cs w0 (map id' (listed w0))) \<longrightarrow>
          map id' (snd (syncWhenOnline e f w))
            = filter (\<lambda>i. i \<in> id' ` set (listed w)) (map id' (listed w0) @ enqueued cs w0))"
proof -
  let ?rs = "syncQueue w"
  have d: "distinct ?rs" and v: "\<forall>r\<in>set ?rs. r < length (heap w)"
    using assms(4) by (simp_all add: wf_def)
  have ids: "drop_ids f w ?rs = id' ` set (listed w)"
    using assms(5) by (auto simp add: drop_ids_def dropped_def listed_eq)
  have q: "syncQueue (fst (sync_loop e f ?rs w)) = []"
    using sync_loop_healthy_queue [OF assms(3) assms(2) d v, of f]
    by (simp add: ids listed_eq)
  have s: "store (fst (sync_loop e f ?rs w)) = filter (\<lambda>x. id' x \<notin> id' ` set (listed w)) (store w)"
    using sync_loop_healthy_store [OF assms(3) assms(2) d v, of f] by (simp add: ids)
  have c: "snd (sync_loop e f ?rs w) = listed w"
    using sync_loop_calls [OF d] by (simp add: listed_eq)
  have "\<forall>x\<in>set (listed w). id' x \<notin> id' ` set (store (fst (sync_loop e f ?rs w)))"
    unfolding s by (auto intro: rev_image_eqI)
  with assms(1) q c have first:
    "listed (fst (syncWhenOnline e f w)) = []
       \<and> snd (syncWhenOnline e f w) = listed w
       \<and> (\<forall>x\<in>set (listed w). id' x \<notin> id' ` set (store (fst (syncWhenOnline e f w))))"
    by (simp add: syncWhenOnline_loop listed_eq)
  have "map id' (listed w) = filter (\<lambda>i. i \<in> id' ` set (listed w)) (map id' (listed w0) @ enqueued cs w0)"
    if i: "db w0 \<or> (syncQueue w0 = [] \<and> store w0 = [])" and w0: "wf w0"
      and di: "distinct (map id' (listed w0) @ enqueued cs w0)"
      and w: "w = fst (run cs w0 (map id' (listed w0)))"
  proof -
    let ?ks = "map id' (listed w0)"
    have v0: "valid_refs w0" using w0 by (simp add: wf_def valid_refs_def)
    have a: "map id' (listed w) = snd (run cs w0 ?ks)"
      unfolding w using i v0 refl by (rule run_fifo)
    have "snd (run cs w0 ?ks) = filter (\<lambda>i. i \<in> set (snd (run cs w0 ?ks))) (?ks @ enqueued cs w0)"
      using _ di by (rule run_survivors) simp
    moreover have "set (snd (run cs w0 ?ks)) = id' ` set (listed w)"
      using a by (metis set_map)
    ultimately show ?thesis using a by simp
  qed
  then have "map id' (snd (syncWhenOnline e f w))
      = filter (\<lambda>i. i \<in> id' ` set (listed w)) (map id' (listed w0) @ enqueued cs w0)"
    if "(db w0 \<or> (syncQueue w0 = [] \<and> store w0 = [])) \<and> wf w0
          \<and> distinct (map id' (listed w0) @ enqueued cs w0)
          \<and> w = fst (run cs w0 (map id' (listed w0)))"
    using that first by metis
  with first show ?thesis by blast
qed

theorem replay_all_accepted_witness:
  "onLine env_later \<and> db world_ABC \<and> wf world_ABC
   \<and> db world_init \<and> wf world_init
   \<and> distinct (map id' (listed world_init) @ enqueued calls_example world_init)
   \<and> world_ABC = fst (run calls_example world_init (map id' (listed world_init)))
   \<and> listed (fst (syncWhenOnline env_later (submit_always (Resolved True)) world_ABC)) = []
   \<and> snd (syncWhenOnline env_later (submit_always (Resolved True)) world_ABC)
       = [item_A, item_B, item_C]
   \<and> map id' (snd (syncWhenOnline env_later (submit_always (Resolved True)) world_ABC))
       = enqueued calls_example world_init"
  using replay_all_accepted [of env_later world_ABC "submit_always (Resolved True)"
      world_init calls_example]
  by (simp add: submit_always_def calls_example_def add_A_world add_B_world add_C_world
      remove_unrelated_world_AB)

subsection \<open>One failing operation\<close>

text \<open>
  C5. With the queue holding A, B, C in this order, \<open>syncFunction\<close> resolving \<open>false\<close>
  for B (not yet retried) and \<open>true\<close> for A and C, one call of \<open>syncWhenOnline\<close>, online
  and with working delete requests, leaves exactly B in the queue, with \<open>retries = 1\<close>;
  all three have been attempted, in order; and the object store has lost the records of
  A and of C and no other.
\<close>

theorem replay_partial_failure:
  assumes "onLine e" and "\<forall>k. delete_ok e k" and "db w" and "wf w"
    and "listed w = [A, B, C]"
    and "f A = Resolved True" and "f B = Resolved False" and "f C = Resolved True"
    and "retries B = 0"
  shows "listed (fst (syncWhenOnline e f w)) = [B\<lparr>retries := 1\<rparr>]
       \<and> snd (syncWhenOnline e f w) = [A, B, C]
       \<and> store (fst (syncWhenOnline e f w))
           = filter (\<lambda>x. id' x \<noteq> id' A \<and> id' x \<noteq> id' C) (store w)
       \<and> id' B \<noteq> id' A \<and> id' B \<noteq> id' C"
proof -
  let ?rs = "syncQueue w"
  have d: "distinct ?rs" and v: "\<forall>r\<in>set ?rs. r < length (heap w)"
    and di: "distinct (map id' (listed w))"
    using assms(4) by (simp_all add: wf_def)
  obtain a b c where rs: "?rs = [a, b, c]"
    and h: "heap w ! a = A" "heap w ! b = B" "heap w ! c = C"
    using assms(5) by (auto simp add: listed_eq map_eq_Cons_conv)
  have ne: "id' A \<noteq> id' B" "id' C \<noteq> id' B" "id' A \<noteq> id' C"
    using di assms(5) by auto
  have "{r \<in> set [a, b, c]. dropped f (heap w ! r)} = {a, c}"
    using assms(6-9) by (auto simp add: dropped_def h)
  then have ids: "drop_ids f w [a, b, c] = {id' A, id' C}"
    by (simp add: drop_ids_def h)
  have q: "syncQueue (fst (sync_loop e f ?rs w)) = [b]"
    using sync_loop_healthy_queue [OF assms(3) assms(2) d v, of f] ne
    by (simp add: ids rs h)
  have hb: "heap (fst (sync_loop e f ?rs w)) ! b = B\<lparr>retries := 1\<rparr>"
    using sync_loop_healthy_heap [OF assms(3) assms(2) d v, of f b] assms(7,9)
    by (simp add: rs h bumped_def)
  have c: "snd (sync_loop e f ?rs w) = [A, B, C]"
    using sync_loop_calls [OF d, of e f w] by (simp add: rs h)
  have s: "store (fst (sync_loop e f ?rs w))
      = filter (\<lambda>x. id' x \<noteq> id' A \<and> id' x \<noteq> id' C) (store w)"
    using sync_loop_healthy_store [OF assms(3) assms(2) d v, of f]
    by (simp add: ids rs)
  show ?thesis using assms(1) q hb c s ne
    by (simp add: syncWhenOnline_loop listed_eq)
qed

theorem replay_partial_failure_witness:
  "listed world_ABC = [item_A, item_B, item_C]
   \<and> submit_failing_for (id' item_B) item_A = Resolved True
   \<and> submit_failing_for (id' item_B) item_B = Resolved False
   \<and> submit_failing_for (id' item_B) item_C = Resolved True
   \<and> listed (fst (syncWhenOnline env_later (submit_failing_for (id' item_B)) world_ABC))
       = [item_B\<lparr>retries := 1\<rparr>]
   \<and> store (fst (syncWhenOnline env_later (submit_failing_for (id' item_B)) world_ABC))
       = [item_B]"
  using replay_partial_failure [of env_later world_ABC item_A item_B item_C
      "submit_failing_for (id' item_B)"]
  by (simp add: submit_failing_for_def)

subsection \<open>Reload\<close>

text \<open>
  Two operations enqueued in the same millisecond: the second one's random part sorts
  first, \<open>getAll\<close> returns the records by key, and the reloaded queue lists the second
  operation before the first.
\<close>

theorem reload_round_trip_counterexample:
  "listed world_AB2C = [item_A, item_B2, item_C]
   \<and> listed (fst (init env_later (reload world_AB2C))) = [item_B2, item_A, item_C]"
  by (simp add: listed_init_reload) (simp add: world_AB2C_eq listed_eq)

text \<open>
  C6, amended. Three operations enqueued on a service with an empty queue and an empty
  object store, initialised or not, are listed in the order of the calls; after a reload
  and a successful \<open>init\<close> the list holds the same three operations, each with
  \<open>retries = 0\<close>, in ascending order of their ids as strings; it is the list of before
  the reload if and only if the three ids were generated in ascending order.
\<close>

theorem reload_round_trip:
  assumes "syncQueue w0 = []" and "store w0 = []"
    and "addToSyncQueue e1 t1 a1 d1 w0 = (w1, Inr k1)"
    and "addToSyncQueue e2 t2 a2 d2 w1 = (w2, Inr k2)"
    and "addToSyncQueue e3 t3 a3 d3 w2 = (w3, Inr k3)"
    and "open_ok e" and "getAll_ok e"
  shows "listed w3 = [new_item e1 t1 a1 d1, new_item e2 t2 a2 d2, new_item e3 t3 a3 d3]
       \<and> map id' (listed w3) = [k1, k2, k3]
       \<and> set (listed (fst (init e (reload w3)))) = set (listed w3)
       \<and> length (listed (fst (init e (reload w3)))) = 3
       \<and> sorted (map id' (listed (fst (init e (reload w3)))))
       \<and> (\<forall>x\<in>set (listed (fst (init e (reload w3)))). retries x = 0)
       \<and> (listed (fst (init e (reload w3))) = listed w3 \<longleftrightarrow> k1 < k2 \<and> k2 < k3)"
proof (cases "db w0")
  case True
  from round_trip_open [OF True assms] show ?thesis .
next
  case False
  have o: "open_ok e1"
    using assms(3) False by (auto simp add: addToSyncQueue_closed split: if_splits)
  let ?w = "fst (init e1 w0)"
  have "db ?w" using o by simp
  moreover have "syncQueue ?w = []" using assms(1,2) by (rule init_fresh)
  moreover have "store ?w = []" using assms(2) by simp
  moreover have "addToSyncQueue e1 t1 a1 d1 ?w = (w1, Inr k1)"
    using assms(3) False o by (simp add: addToSyncQueue_closed)
  ultimately show ?thesis
    using assms(4-7) by (rule round_trip_open)
qed

theorem reload_round_trip_witness:
  "syncQueue (world0 :: nat world) = [] \<and> store (world0 :: nat world) = []
   \<and> addToSyncQueue (env_at 1700000000000 ''k3x9q2m1z'') Transaction Create 11 world0
       = (world_A, Inr ''1700000000000-k3x9q2m1z'')
   \<and> addToSyncQueue (env_at 1700000000250 ''a8d0f5c7b'') Inventory Update 22 world_A
       = (world_AB, Inr ''1700000000250-a8d0f5c7b'')
   \<and> addToSyncQueue (env_at 1700000000500 ''p0w4e6r2t'') Customer Delete 33 world_AB
       = (world_ABC, Inr ''1700000000500-p0w4e6r2t'')
   \<and> listed world_ABC = [item_A, item_B, item_C]
   \<and> listed (fst (init env_later (reload world_ABC))) = listed world_ABC"
  using reload_round_trip [OF world0_simps(2,3) add_A_world0 add_B_world add_C_world, of env_later]
  by (simp add: add_A_world0 add_B_world add_C_world world0_simps)

subsection \<open>A failed enqueue\<close>

text \<open>
  On a service that is not yet initialised \<open>addToSyncQueue\<close> awaits \<open>init\<close> first, which
  loads the stored records into the queue; the add request then fails, and the queue is
  no longer what it was before the call.
\<close>

theorem enqueue_failure_counterexample:
  "listed (reload world_ABC) = []
   \<and> snd (addToSyncQueue env_add_fails Product Create 44 (reload world_ABC)) = Inl RequestError
   \<and> listed (fst (addToSyncQueue env_add_fails Product Create 44 (reload world_ABC)))
       = [item_A, item_B, item_C]"
  by (simp add: addToSyncQueue_cases listed_init_reload) (simp add: reload_def listed_eq)

text \<open>
  C7, amended. \<open>addToSyncQueue\<close> rejects exactly when the database has to be opened and
  cannot be, or the add request fails (in the backend, or on a key that is stored
  already), and it rejects with that error. The operation is then not enqueued: the
  object store is as before, and the service is exactly as before the call when it was
  initialised, and otherwise exactly as \<open>init\<close> alone leaves it (the queue loaded from
  the store when the database opens). In every other case, whatever the length of the
  queue, the call resolves with the new id, and the new operation, never retried, is the
  last of the queue and has its record in the store.
\<close>

theorem enqueue_failure_atomic:
  "((\<not> db w \<and> \<not> open_ok e) \<or> \<not> add_ok e
      \<or> mk_id (dateNow1 e) (mathRandom e) \<in> id' ` set (store w) \<longrightarrow>
      snd (addToSyncQueue e ty ac d w)
        = Inl (if \<not> db w \<and> \<not> open_ok e then OpenError
               else if \<not> add_ok e then RequestError else ConstraintError)
    \<and> fst (addToSyncQueue e ty ac d w) = (if db w then w else fst (init e w))
    \<and> store (fst (addToSyncQueue e ty ac d w)) = store w)
   \<and> (\<not> ((\<not> db w \<and> \<not> open_ok e) \<or> \<not> add_ok e
      \<or> mk_id (dateNow1 e) (mathRandom e) \<in> id' ` set (store w)) \<longrightarrow>
      snd (addToSyncQueue e ty ac d w) = Inr (mk_id (dateNow1 e) (mathRandom e))
    \<and> syncQueue (fst (addToSyncQueue e ty ac d w))
        = syncQueue (if db w then w else fst (init e w))
            @ [length (heap (if db w then w else fst (init e w)))]
    \<and> heap (fst (addToSyncQueue e ty ac d w))
        = heap (if db w then w else fst (init e w)) @ [new_item e ty ac d]
    \<and> store (fst (addToSyncQueue e ty ac d w))
        = insort_key id' (new_item e ty ac d) (store w)
    \<and> db (fst (addToSyncQueue e ty ac d w)))"
  by (auto simp add: addToSyncQueue_cases simp del: insort_key.simps)

theorem enqueue_failure_atomic_witness:
  "\<not> add_ok env_add_fails
   \<and> snd (addToSyncQueue env_add_fails Product Create 44 world_ABC) = Inl RequestError
   \<and> fst (addToSyncQueue env_add_fails Product Create 44 world_ABC) = world_ABC
   \<and> db world_AB \<and> add_ok (env_at 1700000000500 ''p0w4e6r2t'')
   \<and> mk_id 1700000000500 ''p0w4e6r2t'' \<notin> id' ` set (store world_AB)
   \<and> snd (addToSyncQueue (env_at 1700000000500 ''p0w4e6r2t'') Customer Delete 33 world_AB)
       = Inr ''1700000000500-p0w4e6r2t''
   \<and> store (fst (addToSyncQueue (env_at 1700000000500 ''p0w4e6r2t'') Customer Delete 33 world_AB))
       = [item_A, item_B, item_C]"
  using enqueue_failure_atomic [of world_ABC env_add_fails Product Create 44]
    enqueue_failure_atomic [of world_AB "env_at 1700000000500 ''p0w4e6r2t''" Customer Delete 33]
  by (simp add: add_C_world world_AB_eq)

subsection \<open>Remove twice\<close>

text \<open>
  C8. A second \<open>removeFromSyncQueue\<close> of an id after one that resolved, and a
  \<open>removeFromSyncQueue\<close> of an id that is neither in the queue nor in the object store,
  leave the service exactly as it is, whatever the delete request does; and the call
  resolves whenever its delete request succeeds (an absent key is no error).
\<close>

theorem remove_idempotent:
  "(snd (removeFromSyncQueue e1 k w) = Inr () \<longrightarrow>
      fst (removeFromSyncQueue e2 k (fst (removeFromSyncQueue e1 k w)))
        = fst (removeFromSyncQueue e1 k w))
   \<and> (k \<notin> id' ` set (listed w) \<and> k \<notin> id' ` set (store w) \<longrightarrow>
        fst (removeFromSyncQueue e2 k w) = w)
   \<and> (delete_ok e2 k \<longrightarrow> snd (removeFromSyncQueue e2 k w) = Inr ())"
proof -
  have a: "filter (\<lambda>r. id' (heap w ! r) \<noteq> k) (syncQueue w) = syncQueue w"
    if "k \<notin> id' ` set (listed w)"
    using that by (auto simp add: listed_eq filter_id_conv)
  have b: "filter (\<lambda>x. id' x \<noteq> k) (store w) = store w" if "k \<notin> id' ` set (store w)"
    using that by (auto simp add: filter_id_conv)
  show ?thesis
    by (auto simp add: removeFromSyncQueue_def idb_delete_def a b)
qed

theorem remove_idempotent_witness:
  "snd (removeFromSyncQueue env_later (id' item_B) world_ABC) = Inr ()
   \<and> fst (removeFromSyncQueue env_later (id' item_B)
        (fst (removeFromSyncQueue env_later (id' item_B) world_ABC)))
       = fst (removeFromSyncQueue env_later (id' item_B) world_ABC)
   \<and> ''1600000000000-m5n6b7v8c'' \<notin> id' ` set (listed world_ABC)
   \<and> ''1600000000000-m5n6b7v8c'' \<notin> id' ` set (store world_ABC)
   \<and> fst (removeFromSyncQueue env_later ''1600000000000-m5n6b7v8c'' world_ABC) = world_ABC
   \<and> snd (removeFromSyncQueue env_later ''1600000000000-m5n6b7v8c'' world_ABC) = Inr ()"
  using remove_idempotent [of env_later "id' item_B" world_ABC env_later]
    remove_idempotent [of env_later "''1600000000000-m5n6b7v8c''" world_ABC env_later]
  by simp

subsection \<open>Once per pass\<close>

text \<open>
  C9. Whatever \<open>syncFunction\<close> and the requests do, one call of \<open>syncWhenOnline\<close> calls
  \<open>syncFunction\<close> on the operations of the snapshot, each once and in order (on none when
  offline): no id is attempted twice in a pass.
\<close>

theorem replay_each_once:
  assumes "wf w"
  shows "snd (syncWhenOnline e f w) = (if onLine e then listed w else [])
       \<and> distinct (map id' (snd (syncWhenOnline e f w)))"
  using assms sync_loop_calls [of "syncQueue w" e f w]
  by (simp add: syncWhenOnline_loop wf_def listed_eq)

theorem replay_each_once_witness:
  "wf world_ABC
   \<and> snd (syncWhenOnline env_later (submit_always Rejected) world_ABC)
       = [item_A, item_B, item_C]"
  using replay_each_once [of world_ABC env_later "submit_always Rejected"]
  by simp

subsection \<open>Retries are not stored\<close>

text \<open>
  C10. Replay passes, whatever \<open>syncFunction\<close> and the requests do, change the object
  store by deleting records only; the records, written by \<open>addToSyncQueue\<close> with
  \<open>retries = 0\<close>, are never rewritten, so the queue a reload builds from the store holds
  the surviving records, each with \<open>retries = 0\<close>.
\<close>

theorem replay_never_writes_retries:
  assumes "\<forall>x\<in>set (store w). retries x = 0" and "open_ok e" and "getAll_ok e"
  shows "(\<exists>D. store (replays ps w) = filter (\<lambda>x. id' x \<notin> D) (store w))
       \<and> listed (fst (init e (reload (replays ps w)))) = store (replays ps w)
       \<and> (\<forall>x\<in>set (listed (fst (init e (reload (replays ps w))))). retries x = 0)"
proof -
  obtain D where D: "store (replays ps w) = filter (\<lambda>x. id' x \<notin> D) (store w)"
    using replays_deletes [of ps w] by blast
  have l: "listed (fst (init e (reload (replays ps w)))) = store (replays ps w)"
    using assms(2,3) by (rule listed_init_reload)
  have "\<forall>x\<in>set (store (replays ps w)). retries x = 0"
    using assms(1) by (simp add: D)
  with D l show ?thesis by auto
qed

theorem replay_never_writes_retries_witness:
  "map retries (store world_ABC) = [0, 0, 0] \<and> open_ok env_later \<and> getAll_ok env_later
   \<and> listed (replays (passes 5 (Resolved False)) world_ABC)
       = [item_A\<lparr>retries := 5\<rparr>, item_B\<lparr>retries := 5\<rparr>, item_C\<lparr>retries := 5\<rparr>]
   \<and> listed (fst (init env_later (reload (replays (passes 5 (Resolved False)) world_ABC))))
       = [item_A, item_B, item_C]"
  using replay_never_writes_retries [of world_ABC env_later "passes 5 (Resolved False)"]
  by (simp add: world_ABC_five listed_eq)

end
